theory Spec2Isabelle
  imports Main "HOL-Library.Char_ord" "HOL-Library.List_Lexorder"
begin

section \<open>The file system read by the tree printer\<close>

text \<open>
  \<^verbatim>\<open>print_directory_tree\<close> of \<^verbatim>\<open>pps.py\<close> reads the file system through three library
  calls: \<^verbatim>\<open>os.listdir\<close>, \<^verbatim>\<open>os.path.isfile\<close> and \<^verbatim>\<open>os.path.isdir\<close>. The file system is a
  finite tree of nodes (so it has no symbolic-link cycle). A node is
  \<^item> a regular file;
  \<^item> a directory with its entries;
  \<^item> a directory whose listing fails with an error (no read permission, say):
    \<^verbatim>\<open>isdir\<close> is true of it and \<^verbatim>\<open>listdir\<close> raises;
  \<^item> a directory that cannot even be examined (\<^verbatim>\<open>os.stat\<close> fails on it: its parent gives
    no search permission, or its path is too long): \<^verbatim>\<open>isdir\<close> and \<^verbatim>\<open>isfile\<close>, which
    swallow that error, are both false of it, and \<^verbatim>\<open>listdir\<close> on it raises;
  \<^item> an entry that is neither a file nor a directory (a dangling symbolic link, a socket, a
    FIFO, a device).

  A name is a \<open>string\<close>, the list of its characters as bytes (UTF-8 for a character
  beyond ASCII), ordered lexicographically by character code with a proper prefix first:
  the order of Python's \<^verbatim>\<open>str\<close>, since UTF-8 keeps the order of the code points. It is
  the order that \<open>sort\<close> and \<open>sorted\<close> use below, and \<open>sort\<close> stands for Python's
  \<^verbatim>\<open>sorted\<close>: the ascending arrangement of a list of strings is unique.

  The entries of a directory are an association list, read by name (\<open>map_of\<close>): a name
  bound twice denotes its first binding, and \<open>listdir\<close> reports each name once, in the
  order of the list (\<^verbatim>\<open>os.listdir\<close> promises no order). A path is the list of its
  components from the root of the tree, and \<^verbatim>\<open>os.path.join\<close> adds one component.
\<close>

datatype error =
  PermissionError | FileNotFoundError | NotADirectoryError | OSError
  | RecursionError | UnicodeEncodeError

datatype node =
  File | Special | Unlistable error | Unsearchable error | Dir "(string \<times> node) list"

type_synonym path = "string list"

fun lookup :: "node \<Rightarrow> path \<Rightarrow> node option" where
  "lookup n [] = Some n"
| "lookup (Dir es) (c # cs) = (case map_of es c of None \<Rightarrow> None | Some n \<Rightarrow> lookup n cs)"
| "lookup _ (c # cs) = None"

definition listdir :: "node \<Rightarrow> path \<Rightarrow> error + string list" where
  "listdir fs p =
     (case lookup fs p of
        None \<Rightarrow> Inl FileNotFoundError
      | Some File \<Rightarrow> Inl NotADirectoryError
      | Some Special \<Rightarrow> Inl NotADirectoryError
      | Some (Unlistable e) \<Rightarrow> Inl e
      | Some (Unsearchable e) \<Rightarrow> Inl e
      | Some (Dir es) \<Rightarrow> Inr (remdups (map fst es)))"

definition isfile :: "node \<Rightarrow> path \<Rightarrow> bool" where
  "isfile fs p = (lookup fs p = Some File)"

definition isdir :: "node \<Rightarrow> path \<Rightarrow> bool" where
  "isdir fs p =
     (case lookup fs p of Some (Dir es) \<Rightarrow> True | Some (Unlistable e) \<Rightarrow> True | _ \<Rightarrow> False)"

definition path_join :: "path \<Rightarrow> string \<Rightarrow> path" where
  "path_join directory entry = directory @ [entry]"

section \<open>The tree printer\<close>

text \<open>
  A \<^verbatim>\<open>for\<close> loop whose body may raise: the state is threaded through the elements, and
  the first error ends the loop.
\<close>

fun for_loop :: "('a \<Rightarrow> 's \<Rightarrow> error + 's) \<Rightarrow> 'a list \<Rightarrow> 's \<Rightarrow> error + 's" where
  "for_loop body [] s = Inr s"
| "for_loop body (x # xs) s =
     (case body x s of Inl e \<Rightarrow> Inl e | Inr s' \<Rightarrow> for_loop body xs s')"

lemma for_loop_cong [fundef_cong]:
  "xs = ys \<Longrightarrow> s = t \<Longrightarrow> (\<And>x u. x \<in> set ys \<Longrightarrow> f x u = g x u)
   \<Longrightarrow> for_loop f xs s = for_loop g ys t"
  by (induction ys arbitrary: xs s t) (auto split: sum.splits)

text \<open>
  \<^verbatim>\<open>print_directory_tree(directory, prefix)\<close>, lines 6 to 33 of \<^verbatim>\<open>pps.py\<close>. What the
  Python function takes from its surroundings is a parameter here: the file system
  \<open>fs\<close> that the library calls read, and \<open>room\<close>, the number of further nested calls
  of the function that the recursion limit of the interpreter allows at the moment of the
  call (\<^verbatim>\<open>sys.getrecursionlimit()\<close>, which is 1000 unless changed and which the program
  does not change, less the frames in use; the frames of the library functions that one
  call makes are counted with that call). Where no room is left, the recursive call of
  line 25 raises \<^verbatim>\<open>RecursionError\<close>. \<open>Inl e\<close> is the exception \<open>e\<close>, which nothing in
  the function catches; \<open>Inr\<close> carries the returned \<^verbatim>\<open>output_lines\<close>.
\<close>

function print_directory_tree :: "nat \<Rightarrow> node \<Rightarrow> path \<Rightarrow> string \<Rightarrow> error + string list" where
  "print_directory_tree room fs directory prefix =
     (case listdir fs directory of
        Inl e \<Rightarrow> Inl e
      | Inr names \<Rightarrow>
          (let entries = sort names;
               files = filter (\<lambda>entry. isfile fs (path_join directory entry)) entries;
               dirs = filter (\<lambda>entry. isdir fs (path_join directory entry)) entries
           in case for_loop (\<lambda>(i, subdir) output_lines.
                     (let is_last = (int i = int (length dirs) - 1);
                          symbol = (if is_last then ''`-- '' else ''|-- '');
                          output_lines = output_lines @ [prefix @ symbol @ subdir @ ''/''];
                          new_prefix = prefix @ (if is_last then ''    '' else ''|   '')
                      in case (if room = 0 then Inl RecursionError
                               else print_directory_tree (room - 1) fs
                                      (path_join directory subdir) new_prefix) of
                           Inl e \<Rightarrow> Inl e
                         | Inr sub \<Rightarrow> Inr (output_lines @ sub)))
                  (enumerate 0 dirs) [] of
                Inl e \<Rightarrow> Inl e
              | Inr output_lines \<Rightarrow>
                  for_loop (\<lambda>(i, file) output_lines.
                     (let is_last = (int i = int (length files) - 1);
                          symbol = (if is_last then ''`-- '' else ''|-- '')
                      in Inr (output_lines @ [prefix @ symbol @ file])))
                  (enumerate 0 files) output_lines))"
  by pat_completeness auto
termination
  by (relation "measure (\<lambda>(room, fs, directory, prefix). room)") auto

declare print_directory_tree.simps [simp del]

text \<open>
  The values of the local variables \<^verbatim>\<open>dirs\<close> and \<^verbatim>\<open>files\<close> (lines 15 to 17) in a call
  on \<open>directory\<close>: the sorted names that \<^verbatim>\<open>isdir\<close>, respectively \<^verbatim>\<open>isfile\<close>, accepts.
  Where the listing fails the call has no such values, and both are empty.
\<close>

definition dirs_of :: "node \<Rightarrow> path \<Rightarrow> string list" where
  "dirs_of fs directory =
     (case listdir fs directory of
        Inl e \<Rightarrow> []
      | Inr names \<Rightarrow> filter (\<lambda>entry. isdir fs (path_join directory entry)) (sort names))"

definition files_of :: "node \<Rightarrow> path \<Rightarrow> string list" where
  "files_of fs directory =
     (case listdir fs directory of
        Inl e \<Rightarrow> []
      | Inr names \<Rightarrow> filter (\<lambda>entry. isfile fs (path_join directory entry)) (sort names))"

section \<open>The text sink\<close>

text \<open>
  \<^verbatim>\<open>sep.join(lines)\<close> of Python, and \<^verbatim>\<open>save_to_text_file(lines, filepath)\<close>, lines 35 to
  43: the file at \<open>filepath\<close> is opened for writing with the encoding UTF-8 and receives
  the lines joined by the newline character. A disk maps a path to what is there: nothing,
  a text file with its content, or something that \<^verbatim>\<open>open(filepath, "w")\<close> refuses. The
  function catches nothing; it returns the exception, if any, and the disk it leaves.

  Writing encodes the text, and UTF-8 refuses a lone surrogate with
  \<^verbatim>\<open>UnicodeEncodeError\<close>. A \<open>string\<close> is the bytes of a \<^verbatim>\<open>str\<close> as \<^verbatim>\<open>os.listdir\<close> makes
  it, which decodes a file name with \<^verbatim>\<open>errors="surrogateescape"\<close>: the \<^verbatim>\<open>str\<close> holds a
  lone surrogate exactly where the bytes are not well-formed UTF-8. \<open>valid_utf8\<close>
  recognises the well-formed byte sequences (the Unicode Standard, table 3-7). \<^verbatim>\<open>open\<close>
  truncates the file before anything is written, so after the encoding error the file is
  there and empty. The line separator of the platform is the newline character.
\<close>

fun py_join :: "string \<Rightarrow> string list \<Rightarrow> string" where
  "py_join sep [] = []"
| "py_join sep [x] = x"
| "py_join sep (x # y # ys) = x @ sep @ py_join sep (y # ys)"

datatype slot = Absent | Text string | Refused

definition newline :: char where
  "newline = CHR 0x0A"

definition in_range :: "nat \<Rightarrow> nat \<Rightarrow> char \<Rightarrow> bool" where
  "in_range lo hi c = (lo \<le> of_char c \<and> of_char c \<le> hi)"

fun valid_utf8 :: "string \<Rightarrow> bool" where
  "valid_utf8 [] = True"
| "valid_utf8 (a # bs) =
     (if in_range 0x00 0x7F a then valid_utf8 bs
      else if in_range 0xC2 0xDF a then
        (case bs of
           b # r \<Rightarrow> in_range 0x80 0xBF b \<and> valid_utf8 r
         | _ \<Rightarrow> False)
      else if in_range 0xE0 0xEF a then
        (case bs of
           b # c # r \<Rightarrow>
             in_range (if in_range 0xE0 0xE0 a then 0xA0 else 0x80)
                      (if in_range 0xED 0xED a then 0x9F else 0xBF) b
             \<and> in_range 0x80 0xBF c \<and> valid_utf8 r
         | _ \<Rightarrow> False)
      else if in_range 0xF0 0xF4 a then
        (case bs of
           b # c # e # r \<Rightarrow>
             in_range (if in_range 0xF0 0xF0 a then 0x90 else 0x80)
                      (if in_range 0xF4 0xF4 a then 0x8F else 0xBF) b
             \<and> in_range 0x80 0xBF c \<and> in_range 0x80 0xBF e \<and> valid_utf8 r
         | _ \<Rightarrow> False)
      else False)"

declare valid_utf8.simps(2) [simp del]

definition save_to_text_file ::
  "string list \<Rightarrow> 'p \<Rightarrow> ('p \<Rightarrow> slot) \<Rightarrow> error option \<times> ('p \<Rightarrow> slot)" where
  "save_to_text_file lines filepath disk =
     (case disk filepath of
        Refused \<Rightarrow> (Some OSError, disk)
      | _ \<Rightarrow>
         (let text = py_join [newline] lines
          in if valid_utf8 text then (None, disk (filepath := Text text))
             else (Some UnicodeEncodeError, disk (filepath := Text []))))"

definition empty_disk :: "string \<Rightarrow> slot" where
  "empty_disk = (\<lambda>p. Absent)"

text \<open>
  Splitting a text at every occurrence of a separator character, as \<^verbatim>\<open>text.split("\n")\<close>
  does: the specification's reading of a written file, which the repository itself never
  reads back. A text with \<open>k\<close> separators has \<open>k + 1\<close> pieces; the empty text has one,
  the empty piece.
\<close>

fun split_on :: "char \<Rightarrow> string \<Rightarrow> string list" where
  "split_on c [] = [[]]"
| "split_on c (x # xs) =
     (if x = c then [] # split_on c xs
      else (case split_on c xs of [] \<Rightarrow> [[x]] | w # ws \<Rightarrow> (x # w) # ws))"

section \<open>The printer without the bound, and the tree as the specification describes it\<close>

text \<open>
  The function of lines 6 to 33 with the bound on the nesting taken away: a device of the
  proofs. The printer agrees with it wherever the printer returns, and wherever the tree
  is no deeper than the room. Its recursion ends because every call descends into a child
  of the node at \<open>directory\<close>.
\<close>

lemma lookup_snoc:
  "lookup fs (p @ [c]) =
     (case lookup fs p of Some (Dir es) \<Rightarrow> map_of es c | _ \<Rightarrow> None)"
  by (induction fs p rule: lookup.induct) (auto split: option.splits node.splits)

lemma size_map_of: "map_of es c = Some n \<Longrightarrow> size n < size (Dir es)"
  by (induction es) (auto split: if_splits)

function print_unbounded :: "node \<Rightarrow> path \<Rightarrow> string \<Rightarrow> error + string list" where
  "print_unbounded fs directory prefix =
     (case listdir fs directory of
        Inl e \<Rightarrow> Inl e
      | Inr names \<Rightarrow>
          (let entries = sort names;
               files = filter (\<lambda>entry. isfile fs (path_join directory entry)) entries;
               dirs = filter (\<lambda>entry. isdir fs (path_join directory entry)) entries
           in case for_loop (\<lambda>(i, subdir) output_lines.
                     (let is_last = (int i = int (length dirs) - 1);
                          symbol = (if is_last then ''`-- '' else ''|-- '');
                          output_lines = output_lines @ [prefix @ symbol @ subdir @ ''/''];
                          new_prefix = prefix @ (if is_last then ''    '' else ''|   '')
                      in case print_unbounded fs (path_join directory subdir) new_prefix of
                           Inl e \<Rightarrow> Inl e
                         | Inr sub \<Rightarrow> Inr (output_lines @ sub)))
                  (enumerate 0 dirs) [] of
                Inl e \<Rightarrow> Inl e
              | Inr output_lines \<Rightarrow>
                  for_loop (\<lambda>(i, file) output_lines.
                     (let is_last = (int i = int (length files) - 1);
                          symbol = (if is_last then ''`-- '' else ''|-- '')
                      in Inr (output_lines @ [prefix @ symbol @ file])))
                  (enumerate 0 files) output_lines))"
  by pat_completeness auto
termination
proof (relation "measure (\<lambda>(fs, directory, prefix).
                   case lookup fs directory of None \<Rightarrow> 0 | Some n \<Rightarrow> size n)")
  show "wf (measure (\<lambda>(fs, directory, prefix).
                   case lookup fs directory of None \<Rightarrow> 0 | Some n \<Rightarrow> size n))"
    by simp
next
  fix fs :: node and directory :: path and prefix :: string and names entries files dirs
    and x :: "nat \<times> string" and output_lines :: "string list" and i subdir
    and is_last :: bool and symbol :: string and output_linesa :: "string list"
    and new_prefix :: string
  assume "listdir fs directory = Inr names"
    and "dirs = filter (\<lambda>entry. isdir fs (path_join directory entry)) entries"
    and "x \<in> set (enumerate 0 dirs)" and "(i, subdir) = x"
  then show "((fs, path_join directory subdir, new_prefix), fs, directory, prefix)
      \<in> measure (\<lambda>(fs, directory, prefix).
                   case lookup fs directory of None \<Rightarrow> 0 | Some n \<Rightarrow> size n)"
    by (auto simp: isdir_def path_join_def lookup_snoc listdir_def in_set_enumerate_eq
             split: option.splits node.splits dest: size_map_of)
qed

declare print_unbounded.simps [simp del]

text \<open>
  An entry is last among its siblings of the same kind when it is the last element of
  their sorted list.
\<close>

definition is_last_of :: "string list \<Rightarrow> string \<Rightarrow> bool" where
  "is_last_of xs x = (xs \<noteq> [] \<and> x = last xs)"

lemma dirs_of_smaller:
  "s \<in> set (dirs_of fs d) \<Longrightarrow>
   (case lookup fs (path_join d s) of None \<Rightarrow> 0 | Some n \<Rightarrow> size n)
   < (case lookup fs d of None \<Rightarrow> 0 | Some n \<Rightarrow> size n)"
  by (auto simp: dirs_of_def isdir_def path_join_def lookup_snoc listdir_def
           split: option.splits node.splits sum.splits dest: size_map_of)

text \<open>
  The entries below a directory that the printer shows, as paths relative to the
  directory, in the order of the output: for each subdirectory, in sorted order, the
  subdirectory and then the entries below it; then the files in sorted order.
\<close>

function tree_entries :: "node \<Rightarrow> path \<Rightarrow> path list" where
  "tree_entries fs d =
     concat (map (\<lambda>s. [s] # map ((#) s) (tree_entries fs (path_join d s))) (dirs_of fs d))
     @ map (\<lambda>f. [f]) (files_of fs d)"
  by pat_completeness auto
termination
  by (relation "measure (\<lambda>(fs, d). case lookup fs d of None \<Rightarrow> 0 | Some n \<Rightarrow> size n)")
     (auto dest: dirs_of_smaller)

declare tree_entries.simps [simp del]

text \<open>
  The same entries with the recursion over the list of subdirectories written out, which
  is how they are evaluated on a given file system.
\<close>

definition block_entries :: "node \<Rightarrow> path \<Rightarrow> string list \<Rightarrow> path list" where
  "block_entries fs d ss =
     concat (map (\<lambda>s. [s] # map ((#) s) (tree_entries fs (path_join d s))) ss)"

lemma block_entries_code [code]:
  "block_entries fs d [] = []"
  "block_entries fs d (s # ss) =
     ([s] # map ((#) s) (tree_entries fs (path_join d s))) @ block_entries fs d ss"
  by (simp_all add: block_entries_def)

lemma tree_entries_code [code]:
  "tree_entries fs d = block_entries fs d (dirs_of fs d) @ map (\<lambda>f. [f]) (files_of fs d)"
  by (subst tree_entries.simps) (simp add: block_entries_def)

text \<open>
  The indentation segments of the ancestors \<open>ds\<close> of an entry, from the directory down:
  four spaces for an ancestor that is the last subdirectory of its parent, a bar and three
  spaces for any other.
\<close>

fun ancestor_segments :: "node \<Rightarrow> path \<Rightarrow> path \<Rightarrow> string list" where
  "ancestor_segments fs d [] = []"
| "ancestor_segments fs d (c # cs) =
     (if is_last_of (dirs_of fs d) c then ''    '' else ''|   '')
     # ancestor_segments fs (path_join d c) cs"

text \<open>
  The line of an entry, given by its relative path: the prefix, the segments of its
  ancestors, its glyph and its name, with \<open>/\<close> after the name of a directory.
\<close>

fun line_of :: "node \<Rightarrow> path \<Rightarrow> string \<Rightarrow> path \<Rightarrow> string" where
  "line_of fs d p [] = p"
| "line_of fs d p [c] =
     (if isdir fs (path_join d c)
      then p @ (if is_last_of (dirs_of fs d) c then ''`-- '' else ''|-- '') @ c @ ''/''
      else p @ (if is_last_of (files_of fs d) c then ''`-- '' else ''|-- '') @ c)"
| "line_of fs d p (c # q) =
     line_of fs (path_join d c) (p @ (if is_last_of (dirs_of fs d) c then ''    '' else ''|   '')) q"

text \<open>
  The directories that a call on \<open>d\<close> would have to list and cannot, in the order of
  the traversal: \<open>d\<close> itself (the empty relative path) and the directories below it.
\<close>

definition listable :: "node \<Rightarrow> path \<Rightarrow> bool" where
  "listable fs d = (case listdir fs d of Inl e \<Rightarrow> False | Inr names \<Rightarrow> True)"

definition unlistable_dirs :: "node \<Rightarrow> path \<Rightarrow> path list" where
  "unlistable_dirs fs d =
     filter (\<lambda>q. \<not> listable fs (d @ q)) ([] # filter (\<lambda>q. isdir fs (d @ q)) (tree_entries fs d))"

text \<open>
  The number of nested calls that a whole traversal below \<open>d\<close> needs: the greatest
  number of directories, one inside the other, below \<open>d\<close>.
\<close>

definition call_depth :: "node \<Rightarrow> path \<Rightarrow> nat" where
  "call_depth fs d =
     foldr max (map length (filter (\<lambda>q. isdir fs (d @ q)) (tree_entries fs d))) 0"

text \<open>
  A chain of directories nested to a given depth, each the only entry of its parent.
\<close>

fun nested :: "nat \<Rightarrow> node" where
  "nested 0 = Dir []"
| "nested (Suc n) = Dir [(''d'', nested n)]"

section \<open>The loops\<close>

lemma for_loop_append:
  assumes "\<And>x s. body x s = Inr (s @ [g x])"
  shows "for_loop body xs acc = Inr (acc @ map g xs)"
  by (induction xs arbitrary: acc) (simp_all add: assms)

lemma for_loop_blocks:
  assumes "\<And>x s. body x s = (case F x of Inl e \<Rightarrow> Inl e | Inr sub \<Rightarrow> Inr (s @ H x # sub))"
  shows "for_loop body xs acc = Inr res \<longleftrightarrow>
         (\<exists>subs. list_all2 (\<lambda>x sub. F x = Inr sub) xs subs
                \<and> res = acc @ concat (map2 (\<lambda>x sub. H x # sub) xs subs))"
proof (induction xs arbitrary: acc)
  case Nil
  then show ?case by auto
next
  case (Cons x xs)
  show ?case
  proof (cases "F x")
    case (Inl e)
    then show ?thesis by (auto simp: assms list_all2_Cons1)
  next
    case (Inr sub)
    have "for_loop body (x # xs) acc = Inr res \<longleftrightarrow>
          (\<exists>subs. list_all2 (\<lambda>x sub. F x = Inr sub) xs subs
                \<and> res = (acc @ H x # sub) @ concat (map2 (\<lambda>x sub. H x # sub) xs subs))"
      using Inr by (simp add: assms Cons.IH)
    also have "\<dots> \<longleftrightarrow> (\<exists>subs. list_all2 (\<lambda>x sub. F x = Inr sub) (x # xs) subs
                \<and> res = acc @ concat (map2 (\<lambda>x sub. H x # sub) (x # xs) subs))"
      using Inr by (auto simp: list_all2_Cons1)
    finally show ?thesis .
  qed
qed

lemma for_loop_map: "for_loop body (map f xs) acc = for_loop (\<lambda>x. body (f x)) xs acc"
  by (induction xs arbitrary: acc) (auto split: sum.splits)

lemma for_loop_first_error:
  assumes body: "\<And>x s. body x s = (case F x of Inl e \<Rightarrow> Inl e | Inr sub \<Rightarrow> Inr (s @ H x # sub))"
    and ok: "\<And>x. x \<in> set xs \<Longrightarrow> V x = [] \<Longrightarrow> \<exists>sub. F x = Inr sub"
    and err: "\<And>x. x \<in> set xs \<Longrightarrow> V x \<noteq> [] \<Longrightarrow> \<exists>e. F x = Inl e \<and> E (x # hd (V x)) = Inl e"
    and some: "concat (map (\<lambda>x. map ((#) x) (V x)) xs) \<noteq> []"
  shows "\<exists>e. for_loop body xs acc = Inl e
             \<and> E (hd (concat (map (\<lambda>x. map ((#) x) (V x)) xs))) = Inl e"
  using ok err some
proof (induction xs arbitrary: acc)
  case Nil
  then show ?case by simp
next
  case (Cons x xs)
  show ?case
  proof (cases "V x = []")
    case True
    then obtain sub where sub: "F x = Inr sub" using Cons.prems(1) by auto
    have "\<exists>e. for_loop body xs (acc @ H x # sub) = Inl e
             \<and> E (hd (concat (map (\<lambda>x. map ((#) x) (V x)) xs))) = Inl e"
    proof (rule Cons.IH)
      show "\<exists>sub. F y = Inr sub" if "y \<in> set xs" "V y = []" for y
        using that Cons.prems(1) by simp
      show "\<exists>e. F y = Inl e \<and> E (y # hd (V y)) = Inl e" if "y \<in> set xs" "V y \<noteq> []" for y
        by (rule Cons.prems(2)) (use that in simp_all)
      show "concat (map (\<lambda>x. map ((#) x) (V x)) xs) \<noteq> []"
        using Cons.prems(3) True by simp
    qed
    moreover have "for_loop body (x # xs) acc = for_loop body xs (acc @ H x # sub)"
      using sub by (simp add: body)
    ultimately show ?thesis
      using True by simp
  next
    case False
    then obtain e where e: "F x = Inl e" "E (x # hd (V x)) = Inl e" using Cons.prems(2) by auto
    have "for_loop body (x # xs) acc = Inl e"
      using e(1) by (simp add: body)
    then show ?thesis using False e(2) by (simp add: hd_append hd_map)
  qed
qed

section \<open>Sorted names\<close>

lemma distinct_dirs_of: "distinct (dirs_of fs d)"
  by (simp add: dirs_of_def listdir_def split: sum.splits option.splits node.splits)

lemma distinct_files_of: "distinct (files_of fs d)"
  by (simp add: files_of_def listdir_def split: sum.splits option.splits node.splits)

lemma sorted_dirs_of: "sorted (dirs_of fs d)"
  by (simp add: dirs_of_def sorted_wrt_filter split: sum.splits)

lemma sorted_files_of: "sorted (files_of fs d)"
  by (simp add: files_of_def sorted_wrt_filter split: sum.splits)

lemma is_last_of_nth:
  "distinct xs \<Longrightarrow> i < length xs \<Longrightarrow> is_last_of xs (xs ! i) = (int i = int (length xs) - 1)"
  by (cases xs rule: rev_cases) (auto simp: is_last_of_def nth_append nth_eq_iff_index_eq)

lemma is_last_of_enumerate:
  "distinct xs \<Longrightarrow> (i, x) \<in> set (enumerate 0 xs) \<Longrightarrow>
   (int i = int (length xs) - 1) = is_last_of xs x"
  by (auto simp: in_set_enumerate_eq is_last_of_nth)

lemma is_last_of_nth_nat:
  "distinct xs \<Longrightarrow> i < length xs \<Longrightarrow> is_last_of xs (xs ! i) = (i = length xs - 1)"
  by (auto simp: is_last_of_nth)

lemma dirs_of_isdir: "s \<in> set (dirs_of fs d) \<Longrightarrow> isdir fs (path_join d s)"
  by (auto simp: dirs_of_def split: sum.splits)

lemma files_of_isfile: "f \<in> set (files_of fs d) \<Longrightarrow> isfile fs (path_join d f)"
  by (auto simp: files_of_def split: sum.splits)

lemma isfile_not_isdir: "isfile fs q \<Longrightarrow> \<not> isdir fs q"
  by (simp add: isfile_def isdir_def)

lemma lookup_append:
  "lookup fs (a @ b) = (case lookup fs a of None \<Rightarrow> None | Some n \<Rightarrow> lookup n b)"
  by (induction fs a rule: lookup.induct) (auto split: option.splits)

lemma lookup_Cons_Some: "lookup n (c # cs) = Some m \<Longrightarrow> \<exists>es. n = Dir es"
  by (cases n) auto

lemma mem_dirs_of: "s \<in> set (dirs_of fs d) \<longleftrightarrow> isdir fs (path_join d s)"
proof
  assume "s \<in> set (dirs_of fs d)"
  then show "isdir fs (path_join d s)" by (rule dirs_of_isdir)
next
  assume "isdir fs (path_join d s)"
  then obtain m where m: "lookup fs (d @ [s]) = Some m"
    by (auto simp: isdir_def path_join_def split: option.splits)
  then obtain es where es: "lookup fs d = Some (Dir es)" "map_of es s = Some m"
    by (auto simp: lookup_snoc split: option.splits node.splits)
  from es(2) have "s \<in> fst ` set es" by (metis domI dom_map_of_conv_image_fst)
  with es(1) \<open>isdir fs (path_join d s)\<close> show "s \<in> set (dirs_of fs d)"
    by (simp add: dirs_of_def listdir_def)
qed

lemma mem_files_of: "f \<in> set (files_of fs d) \<longleftrightarrow> isfile fs (path_join d f)"
proof
  assume "f \<in> set (files_of fs d)"
  then show "isfile fs (path_join d f)" by (rule files_of_isfile)
next
  assume *: "isfile fs (path_join d f)"
  then have m: "lookup fs (d @ [f]) = Some File"
    by (auto simp: isfile_def path_join_def)
  then obtain es where es: "lookup fs d = Some (Dir es)" "map_of es f = Some File"
    by (auto simp: lookup_snoc split: option.splits node.splits)
  from es(2) have "f \<in> fst ` set es" by (metis domI dom_map_of_conv_image_fst)
  with es(1) * show "f \<in> set (files_of fs d)"
    by (simp add: files_of_def listdir_def)
qed

section \<open>One call of the printer without the bound\<close>

lemma pdt_level:
  "print_unbounded fs d p =
     (case listdir fs d of
        Inl e \<Rightarrow> Inl e
      | Inr names \<Rightarrow>
         (case for_loop (\<lambda>s out.
                 case print_unbounded fs (path_join d s)
                        (p @ (if is_last_of (dirs_of fs d) s then ''    '' else ''|   '')) of
                   Inl e \<Rightarrow> Inl e
                 | Inr sub \<Rightarrow>
                     Inr (out @ (p @ (if is_last_of (dirs_of fs d) s then ''`-- '' else ''|-- '')
                                   @ s @ ''/'') # sub))
               (dirs_of fs d) [] of
            Inl e \<Rightarrow> Inl e
          | Inr out \<Rightarrow>
              Inr (out @ map (\<lambda>f. p @ (if is_last_of (files_of fs d) f then ''`-- '' else ''|-- '') @ f)
                            (files_of fs d))))"
proof (cases "listdir fs d")
  case (Inl e)
  then show ?thesis by (subst print_unbounded.simps) simp
next
  case (Inr names)
  let ?body = "\<lambda>s out.
                 case print_unbounded fs (path_join d s)
                        (p @ (if is_last_of (dirs_of fs d) s then ''    '' else ''|   '')) of
                   Inl e \<Rightarrow> Inl e
                 | Inr sub \<Rightarrow>
                     Inr (out @ (p @ (if is_last_of (dirs_of fs d) s then ''`-- '' else ''|-- '')
                                   @ s @ ''/'') # sub)"
  let ?line = "\<lambda>f. p @ (if is_last_of (files_of fs d) f then ''`-- '' else ''|-- '') @ f"
  have names: "filter (\<lambda>entry. isdir fs (path_join d entry)) (sort names) = dirs_of fs d"
    "filter (\<lambda>entry. isfile fs (path_join d entry)) (sort names) = files_of fs d"
    using Inr by (simp_all add: dirs_of_def files_of_def)
  have "for_loop (\<lambda>(i, file) output_lines.
                  Inr (output_lines @
                       [p @ (if int i = int (length (files_of fs d)) - 1
                             then ''`-- '' else ''|-- '') @ file]))
                  (enumerate 0 (files_of fs d)) out
        = for_loop (\<lambda>x output_lines. Inr (output_lines @ [?line (snd x)]))
                  (enumerate 0 (files_of fs d)) out" for out
    by (rule for_loop_cong) (auto simp: is_last_of_enumerate [OF distinct_files_of])
  also have "\<dots> out = Inr (out @ map (\<lambda>x. ?line (snd x)) (enumerate 0 (files_of fs d)))" for out
    by (rule for_loop_append) (rule refl)
  also have "map (\<lambda>x. ?line (snd x)) (enumerate 0 (files_of fs d)) = map ?line (files_of fs d)"
    by (simp only: map_map [symmetric, unfolded comp_def, of ?line snd] map_snd_enumerate)
  finally have files: "for_loop (\<lambda>(i, file) output_lines.
                  Inr (output_lines @
                       [p @ (if int i = int (length (files_of fs d)) - 1
                             then ''`-- '' else ''|-- '') @ file]))
                  (enumerate 0 (files_of fs d)) out
        = Inr (out @ map ?line (files_of fs d))" for out .
  have "for_loop (\<lambda>(i, subdir) output_lines.
                  case print_unbounded fs (path_join d subdir)
                         (p @ (if int i = int (length (dirs_of fs d)) - 1
                               then ''    '' else ''|   '')) of
                    Inl e \<Rightarrow> Inl e
                  | Inr sub \<Rightarrow>
                      Inr ((output_lines @
                            [p @ (if int i = int (length (dirs_of fs d)) - 1
                                  then ''`-- '' else ''|-- '') @ subdir @ ''/'']) @ sub))
                  (enumerate 0 (dirs_of fs d)) []
      = for_loop (\<lambda>x. ?body (snd x)) (enumerate 0 (dirs_of fs d)) []"
    by (rule for_loop_cong)
       (auto simp: is_last_of_enumerate [OF distinct_dirs_of] split: sum.splits)
  also have "\<dots> = for_loop ?body (map snd (enumerate 0 (dirs_of fs d))) []"
    by (simp only: for_loop_map)
  finally have dirs: "for_loop (\<lambda>(i, subdir) output_lines.
                  case print_unbounded fs (path_join d subdir)
                         (p @ (if int i = int (length (dirs_of fs d)) - 1
                               then ''    '' else ''|   '')) of
                    Inl e \<Rightarrow> Inl e
                  | Inr sub \<Rightarrow>
                      Inr ((output_lines @
                            [p @ (if int i = int (length (dirs_of fs d)) - 1
                                  then ''`-- '' else ''|-- '') @ subdir @ ''/'']) @ sub))
                  (enumerate 0 (dirs_of fs d)) []
      = for_loop ?body (dirs_of fs d) []"
    by (simp only: map_snd_enumerate)
  have "print_unbounded fs d p =
     (case for_loop (\<lambda>(i, subdir) output_lines.
                  case print_unbounded fs (path_join d subdir)
                         (p @ (if int i = int (length (dirs_of fs d)) - 1
                               then ''    '' else ''|   '')) of
                    Inl e \<Rightarrow> Inl e
                  | Inr sub \<Rightarrow>
                      Inr ((output_lines @
                            [p @ (if int i = int (length (dirs_of fs d)) - 1
                                  then ''`-- '' else ''|-- '') @ subdir @ ''/'']) @ sub))
                  (enumerate 0 (dirs_of fs d)) [] of
        Inl e \<Rightarrow> Inl e
      | Inr out \<Rightarrow>
          for_loop (\<lambda>(i, file) output_lines.
                  Inr (output_lines @
                       [p @ (if int i = int (length (files_of fs d)) - 1
                             then ''`-- '' else ''|-- '') @ file]))
                  (enumerate 0 (files_of fs d)) out)"
    by (subst print_unbounded.simps) (simp only: Inr sum.case Let_def names)
  then show ?thesis
    unfolding dirs by (simp add: Inr files split: sum.splits)
qed

lemma pdt_Inr_iff:
  "print_unbounded fs d p = Inr out \<longleftrightarrow>
     (\<exists>names. listdir fs d = Inr names) \<and>
     (\<exists>subs. list_all2 (\<lambda>s sub. print_unbounded fs (path_join d s)
                          (p @ (if is_last_of (dirs_of fs d) s then ''    '' else ''|   '')) = Inr sub)
               (dirs_of fs d) subs
          \<and> out = concat (map2 (\<lambda>s sub. (p @ (if is_last_of (dirs_of fs d) s then ''`-- '' else ''|-- '')
                                              @ s @ ''/'') # sub) (dirs_of fs d) subs)
                  @ map (\<lambda>f. p @ (if is_last_of (files_of fs d) f then ''`-- '' else ''|-- '') @ f)
                        (files_of fs d))"
proof (cases "listdir fs d")
  case (Inl e)
  then show ?thesis by (subst pdt_level) simp
next
  case (Inr names)
  let ?F = "\<lambda>s. print_unbounded fs (path_join d s)
              (p @ (if is_last_of (dirs_of fs d) s then ''    '' else ''|   ''))"
  let ?H = "\<lambda>s. p @ (if is_last_of (dirs_of fs d) s then ''`-- '' else ''|-- '') @ s @ ''/''"
  let ?body = "\<lambda>s out. case ?F s of Inl e \<Rightarrow> Inl e | Inr sub \<Rightarrow> Inr (out @ ?H s # sub)"
  let ?files = "map (\<lambda>f. p @ (if is_last_of (files_of fs d) f then ''`-- '' else ''|-- '') @ f)
                        (files_of fs d)"
  have blocks: "for_loop ?body (dirs_of fs d) [] = Inr res \<longleftrightarrow>
         (\<exists>subs. list_all2 (\<lambda>x sub. ?F x = Inr sub) (dirs_of fs d) subs
                \<and> res = [] @ concat (map2 (\<lambda>x sub. ?H x # sub) (dirs_of fs d) subs))" for res
    by (rule for_loop_blocks) (rule refl)
  have level: "print_unbounded fs d p =
      (case for_loop ?body (dirs_of fs d) [] of Inl e \<Rightarrow> Inl e | Inr out \<Rightarrow> Inr (out @ ?files))"
    by (subst pdt_level) (simp only: Inr sum.case)
  show ?thesis
  proof (cases "for_loop ?body (dirs_of fs d) []")
    case (Inl e)
    then have "print_unbounded fs d p = Inl e" by (simp only: level sum.case)
    moreover have "\<not> (\<exists>subs. list_all2 (\<lambda>x sub. ?F x = Inr sub) (dirs_of fs d) subs)"
    proof
      assume "\<exists>subs. list_all2 (\<lambda>x sub. ?F x = Inr sub) (dirs_of fs d) subs"
      then obtain subs where "list_all2 (\<lambda>x sub. ?F x = Inr sub) (dirs_of fs d) subs" ..
      then have "for_loop ?body (dirs_of fs d) [] =
                   Inr ([] @ concat (map2 (\<lambda>x sub. ?H x # sub) (dirs_of fs d) subs))"
        unfolding blocks by blast
      with Inl show False by simp
    qed
    ultimately show ?thesis by auto
  next
    case res: (Inr res)
    then have out: "print_unbounded fs d p = Inr (res @ ?files)" by (simp only: level sum.case)
    show ?thesis
    proof
      assume "print_unbounded fs d p = Inr out"
      with out have "out = res @ ?files" by simp
      moreover from res obtain subs where "list_all2 (\<lambda>x sub. ?F x = Inr sub) (dirs_of fs d) subs"
        "res = [] @ concat (map2 (\<lambda>x sub. ?H x # sub) (dirs_of fs d) subs)"
        unfolding blocks by blast
      ultimately show "(\<exists>names. listdir fs d = Inr names) \<and>
         (\<exists>subs. list_all2 (\<lambda>s sub. ?F s = Inr sub) (dirs_of fs d) subs
          \<and> out = concat (map2 (\<lambda>s sub. ?H s # sub) (dirs_of fs d) subs) @ ?files)"
        using Inr by auto
    next
      assume "(\<exists>names. listdir fs d = Inr names) \<and>
         (\<exists>subs. list_all2 (\<lambda>s sub. ?F s = Inr sub) (dirs_of fs d) subs
          \<and> out = concat (map2 (\<lambda>s sub. ?H s # sub) (dirs_of fs d) subs) @ ?files)"
      then obtain subs where subs: "list_all2 (\<lambda>s sub. ?F s = Inr sub) (dirs_of fs d) subs"
        "out = concat (map2 (\<lambda>s sub. ?H s # sub) (dirs_of fs d) subs) @ ?files" by blast
      from subs(1) have "for_loop ?body (dirs_of fs d) [] =
                   Inr ([] @ concat (map2 (\<lambda>x sub. ?H x # sub) (dirs_of fs d) subs))"
        unfolding blocks by blast
      with res have "res = concat (map2 (\<lambda>x sub. ?H x # sub) (dirs_of fs d) subs)" by simp
      with subs(2) out show "print_unbounded fs d p = Inr out" by simp
    qed
  qed
qed

lemma pdt_level_index:
  assumes "print_unbounded fs d p = Inr out"
  shows "\<exists>subs.
    length subs = length (dirs_of fs d) \<and>
    (\<forall>i<length (dirs_of fs d).
       print_unbounded fs (path_join d (dirs_of fs d ! i))
         (p @ (if i = length (dirs_of fs d) - 1 then ''    '' else ''|   '')) = Inr (subs ! i)) \<and>
    out = concat (map (\<lambda>i. (p @ (if i = length (dirs_of fs d) - 1 then ''`-- '' else ''|-- '')
                               @ dirs_of fs d ! i @ ''/'') # subs ! i) [0..<length (dirs_of fs d)])
           @ map (\<lambda>j. p @ (if j = length (files_of fs d) - 1 then ''`-- '' else ''|-- '')
                          @ files_of fs d ! j) [0..<length (files_of fs d)]"
proof -
  let ?ds = "dirs_of fs d" and ?fs = "files_of fs d"
  obtain subs where
    subs: "list_all2 (\<lambda>s sub. print_unbounded fs (path_join d s)
                          (p @ (if is_last_of ?ds s then ''    '' else ''|   '')) = Inr sub) ?ds subs"
    and out: "out = concat (map2 (\<lambda>s sub. (p @ (if is_last_of ?ds s then ''`-- '' else ''|-- '')
                                              @ s @ ''/'') # sub) ?ds subs)
                  @ map (\<lambda>f. p @ (if is_last_of ?fs f then ''`-- '' else ''|-- '') @ f) ?fs"
    using pdt_Inr_iff [THEN iffD1, OF assms] by blast
  have len: "length subs = length ?ds"
    using subs by (simp add: list_all2_lengthD)
  have rec: "print_unbounded fs (path_join d (?ds ! i))
         (p @ (if i = length ?ds - 1 then ''    '' else ''|   '')) = Inr (subs ! i)"
    if "i < length ?ds" for i
    using list_all2_nthD [OF subs that] that
    by (simp add: is_last_of_nth_nat [OF distinct_dirs_of])
  have blocks: "map2 (\<lambda>s sub. (p @ (if is_last_of ?ds s then ''`-- '' else ''|-- '') @ s @ ''/'') # sub)
                  ?ds subs
      = map (\<lambda>i. (p @ (if i = length ?ds - 1 then ''`-- '' else ''|-- '') @ ?ds ! i @ ''/'') # subs ! i)
            [0..<length ?ds]"
    using len by (intro nth_equalityI) (simp_all add: is_last_of_nth_nat [OF distinct_dirs_of])
  have files: "map (\<lambda>f. p @ (if is_last_of ?fs f then ''`-- '' else ''|-- '') @ f) ?fs
      = map (\<lambda>j. p @ (if j = length ?fs - 1 then ''`-- '' else ''|-- '') @ ?fs ! j) [0..<length ?fs]"
    by (intro nth_equalityI) (simp_all add: is_last_of_nth_nat [OF distinct_files_of])
  show ?thesis
    using len rec unfolding out blocks files by blast
qed

section \<open>The whole output\<close>

lemma tree_entries_nonempty: "q \<in> set (tree_entries fs d) \<Longrightarrow> q \<noteq> []"
  by (subst (asm) tree_entries.simps) auto

lemma list_all2_fun: "list_all2 (\<lambda>x y. y = g x) xs ys \<Longrightarrow> ys = map g xs"
  by (induction xs ys rule: list_all2_induct) auto

lemma map2_map_same: "map2 f xs (map g xs) = map (\<lambda>x. f x (g x)) xs"
  by (induction xs) auto

lemma line_of_Cons:
  "q \<noteq> [] \<Longrightarrow> line_of fs d p (s # q) =
     line_of fs (path_join d s) (p @ (if is_last_of (dirs_of fs d) s then ''    '' else ''|   '')) q"
  by (cases q) simp_all

lemma pdt_lines:
  "print_unbounded fs d p = Inr out \<Longrightarrow> out = map (line_of fs d p) (tree_entries fs d)"
proof (induction fs d arbitrary: p out rule: tree_entries.induct)
  case (1 fs d)
  let ?ind = "\<lambda>s. p @ (if is_last_of (dirs_of fs d) s then ''    '' else ''|   '')"
  let ?H = "\<lambda>s. p @ (if is_last_of (dirs_of fs d) s then ''`-- '' else ''|-- '') @ s @ ''/''"
  let ?G = "\<lambda>s. map (line_of fs (path_join d s) (?ind s)) (tree_entries fs (path_join d s))"
  obtain subs where
    subs: "list_all2 (\<lambda>s sub. print_unbounded fs (path_join d s) (?ind s) = Inr sub)
             (dirs_of fs d) subs"
    and out: "out = concat (map2 (\<lambda>s sub. ?H s # sub) (dirs_of fs d) subs)
                @ map (\<lambda>f. p @ (if is_last_of (files_of fs d) f then ''`-- '' else ''|-- '') @ f)
                      (files_of fs d)"
    using pdt_Inr_iff [THEN iffD1, OF "1.prems"] by blast
  have "list_all2 (\<lambda>s sub. sub = ?G s) (dirs_of fs d) subs"
    using subs
  proof (rule list.rel_mono_strong)
    fix s sub
    assume "s \<in> set (dirs_of fs d)"
      and "print_unbounded fs (path_join d s) (?ind s) = Inr sub"
    then show "sub = ?G s" by (rule "1.IH")
  qed
  then have subs_eq: "subs = map ?G (dirs_of fs d)" by (rule list_all2_fun)
  have block: "?H s # ?G s = map (line_of fs d p) ([s] # map ((#) s) (tree_entries fs (path_join d s)))"
    if "s \<in> set (dirs_of fs d)" for s
  proof -
    have "line_of fs d p (s # q) = line_of fs (path_join d s) (?ind s) q"
      if "q \<in> set (tree_entries fs (path_join d s))" for q
      using tree_entries_nonempty [OF that] by (rule line_of_Cons)
    then have "map (line_of fs d p) (map ((#) s) (tree_entries fs (path_join d s))) = ?G s"
      by (simp add: comp_def)
    moreover have "line_of fs d p [s] = ?H s"
      using dirs_of_isdir [OF that] by simp
    ultimately show ?thesis by simp
  qed
  have blocks: "concat (map2 (\<lambda>s sub. ?H s # sub) (dirs_of fs d) subs)
     = concat (map (\<lambda>s. map (line_of fs d p) ([s] # map ((#) s) (tree_entries fs (path_join d s))))
                 (dirs_of fs d))"
    unfolding subs_eq map2_map_same
    by (rule arg_cong [where f = concat], rule map_cong [OF refl]) (rule block)
  have files: "map (\<lambda>f. p @ (if is_last_of (files_of fs d) f then ''`-- '' else ''|-- '') @ f)
                      (files_of fs d)
      = map (line_of fs d p) (map (\<lambda>f. [f]) (files_of fs d))"
    by (auto dest: files_of_isfile isfile_not_isdir)
  have "map (line_of fs d p) (tree_entries fs d) =
      concat (map (\<lambda>s. map (line_of fs d p) ([s] # map ((#) s) (tree_entries fs (path_join d s))))
                 (dirs_of fs d))
      @ map (line_of fs d p) (map (\<lambda>f. [f]) (files_of fs d))"
    by (subst tree_entries.simps) (simp only: map_append map_concat map_map comp_def)
  then show ?case
    unfolding out blocks files by simp
qed

lemma tree_entries_Cons:
  "s # q \<in> set (tree_entries fs d) \<longleftrightarrow>
     (q = [] \<and> (s \<in> set (dirs_of fs d) \<or> s \<in> set (files_of fs d)))
     \<or> (s \<in> set (dirs_of fs d) \<and> q \<in> set (tree_entries fs (path_join d s)))"
  by (subst tree_entries.simps) (auto dest: tree_entries_nonempty)

lemma deeper_is_dir:
  assumes "q \<noteq> []" and "isfile fs (d @ s # q) \<or> isdir fs (d @ s # q)"
  shows "isdir fs (path_join d s)"
proof -
  from assms(2) obtain m where "lookup fs (d @ s # q) = Some m"
    by (auto simp: isfile_def isdir_def split: option.splits)
  then have "lookup fs ((d @ [s]) @ q) = Some m" by simp
  then obtain n where n: "lookup fs (d @ [s]) = Some n" "lookup n q = Some m"
    unfolding lookup_append [of fs "d @ [s]" q] by (auto split: option.splits)
  from assms(1) n(2) obtain es where "n = Dir es"
    by (cases q) (auto dest: lookup_Cons_Some)
  with n(1) show ?thesis by (simp add: isdir_def path_join_def)
qed

lemma tree_entries_iff:
  "q \<in> set (tree_entries fs d) \<longleftrightarrow> q \<noteq> [] \<and> (isfile fs (d @ q) \<or> isdir fs (d @ q))"
proof (induction q arbitrary: d)
  case Nil
  then show ?case by (auto dest: tree_entries_nonempty)
next
  case (Cons s q)
  show ?case
  proof (cases "q = []")
    case True
    then show ?thesis
      by (auto simp: tree_entries_Cons mem_dirs_of mem_files_of path_join_def
               dest: tree_entries_nonempty)
  next
    case False
    have "s # q \<in> set (tree_entries fs d) \<longleftrightarrow>
          isdir fs (path_join d s) \<and> q \<in> set (tree_entries fs (path_join d s))"
      using False by (simp add: tree_entries_Cons mem_dirs_of)
    also have "\<dots> \<longleftrightarrow> isdir fs (path_join d s) \<and> (isfile fs (d @ s # q) \<or> isdir fs (d @ s # q))"
      using False by (simp add: Cons.IH path_join_def)
    also have "\<dots> \<longleftrightarrow> (isfile fs (d @ s # q) \<or> isdir fs (d @ s # q))"
      using deeper_is_dir [OF False] by blast
    finally show ?thesis by simp
  qed
qed

lemma distinct_tree_entries: "distinct (tree_entries fs d)"
proof (induction fs d rule: tree_entries.induct)
  case (1 fs d)
  let ?B = "\<lambda>s. [s] # map ((#) s) (tree_entries fs (path_join d s))"
  have hd_block: "q \<in> set (?B s) \<Longrightarrow> \<exists>r. q = s # r" for q s by auto
  have "distinct (map ?B (dirs_of fs d))"
    by (rule distinct_map [THEN iffD2]) (auto simp: distinct_dirs_of inj_on_def)
  moreover have "distinct ys" if "ys \<in> set (map ?B (dirs_of fs d))" for ys
    using that "1.IH" by (auto simp: distinct_map dest: tree_entries_nonempty)
  moreover have "set ys \<inter> set zs = {}"
    if "ys \<in> set (map ?B (dirs_of fs d))" "zs \<in> set (map ?B (dirs_of fs d))" "ys \<noteq> zs" for ys zs
    using that by auto
  ultimately have "distinct (concat (map ?B (dirs_of fs d)))" by (rule distinct_concat)
  moreover have "distinct (map (\<lambda>f. [f]) (files_of fs d))"
    by (simp add: distinct_map distinct_files_of inj_on_def)
  moreover have "set (concat (map ?B (dirs_of fs d))) \<inter> set (map (\<lambda>f. [f]) (files_of fs d)) = {}"
    by (auto dest: tree_entries_nonempty dirs_of_isdir files_of_isfile isfile_not_isdir)
  ultimately show ?case
    by (subst tree_entries.simps) (simp only: distinct_append simp_thms)
qed

lemma line_of_snoc:
  "line_of fs d p (ds @ [c]) =
     p @ concat (ancestor_segments fs d ds) @
     (if isdir fs (d @ ds @ [c])
      then (if is_last_of (dirs_of fs (d @ ds)) c then ''`-- '' else ''|-- '') @ c @ ''/''
      else (if is_last_of (files_of fs (d @ ds)) c then ''`-- '' else ''|-- '') @ c)"
proof (induction ds arbitrary: d p)
  case Nil
  then show ?case by (simp add: path_join_def)
next
  case (Cons a ds)
  have "line_of fs d p ((a # ds) @ [c]) =
        line_of fs (path_join d a) (p @ (if is_last_of (dirs_of fs d) a then ''    '' else ''|   ''))
          (ds @ [c])"
    by (simp add: line_of_Cons)
  then show ?case
    by (simp add: Cons.IH path_join_def)
qed

section \<open>Listing errors\<close>

lemma not_listable_empty:
  "\<not> listable fs d \<Longrightarrow> dirs_of fs d = [] \<and> files_of fs d = []"
  by (auto simp: listable_def dirs_of_def files_of_def split: sum.splits)

lemma unlistable_dirs_rec:
  "unlistable_dirs fs d =
     (if listable fs d
      then concat (map (\<lambda>s. map ((#) s) (unlistable_dirs fs (path_join d s))) (dirs_of fs d))
      else [[]])"
proof (cases "listable fs d")
  case False
  then have "tree_entries fs d = []"
    by (subst tree_entries.simps) (simp add: not_listable_empty)
  with False show ?thesis by (simp add: unlistable_dirs_def)
next
  case True
  let ?bad = "\<lambda>q. \<not> listable fs (d @ q)"
  let ?dir = "\<lambda>q. isdir fs (d @ q)"
  let ?B = "\<lambda>s. [s] # map ((#) s) (tree_entries fs (path_join d s))"
  have block: "filter ?bad (filter ?dir (?B s)) = map ((#) s) (unlistable_dirs fs (path_join d s))"
    if "s \<in> set (dirs_of fs d)" for s
    using dirs_of_isdir [OF that]
    by (simp add: unlistable_dirs_def filter_map comp_def path_join_def)
  have files: "filter ?dir (map (\<lambda>f. [f]) (files_of fs d)) = []"
    by (auto simp: filter_empty_conv path_join_def dest!: files_of_isfile isfile_not_isdir)
  have "unlistable_dirs fs d = filter ?bad (filter ?dir (tree_entries fs d))"
    using True by (simp add: unlistable_dirs_def)
  also have "\<dots> = concat (map (\<lambda>s. filter ?bad (filter ?dir (?B s))) (dirs_of fs d))"
    by (subst tree_entries.simps) (simp only: filter_append filter_concat map_map comp_def files, simp)
  also have "\<dots> = concat (map (\<lambda>s. map ((#) s) (unlistable_dirs fs (path_join d s))) (dirs_of fs d))"
    by (rule arg_cong [where f = concat], rule map_cong [OF refl]) (rule block)
  finally show ?thesis using True by simp
qed

lemma list_all2_projr:
  "\<forall>x\<in>set xs. \<exists>y. F x = Inr y \<Longrightarrow> list_all2 (\<lambda>x y. F x = Inr y) xs (map (\<lambda>x. projr (F x)) xs)"
  by (induction xs) auto

lemma pdt_result:
  "(unlistable_dirs fs d = [] \<longrightarrow> (\<exists>out. print_unbounded fs d p = Inr out)) \<and>
   (unlistable_dirs fs d \<noteq> [] \<longrightarrow>
      (\<exists>e. print_unbounded fs d p = Inl e
           \<and> listdir fs (d @ hd (unlistable_dirs fs d)) = Inl e))"
proof (induction fs d arbitrary: p rule: tree_entries.induct)
  case (1 fs d)
  show ?case
  proof (cases "listdir fs d")
    case (Inl e)
    then have "unlistable_dirs fs d = [[]]"
      by (subst unlistable_dirs_rec) (simp add: listable_def)
    moreover have "print_unbounded fs d p = Inl e"
      using Inl by (subst pdt_level) simp
    ultimately show ?thesis using Inl by simp
  next
    case (Inr names)
    let ?F = "\<lambda>s. print_unbounded fs (path_join d s)
                (p @ (if is_last_of (dirs_of fs d) s then ''    '' else ''|   ''))"
    let ?H = "\<lambda>s. p @ (if is_last_of (dirs_of fs d) s then ''`-- '' else ''|-- '') @ s @ ''/''"
    let ?body = "\<lambda>s out. case ?F s of Inl e \<Rightarrow> Inl e | Inr sub \<Rightarrow> Inr (out @ ?H s # sub)"
    let ?V = "\<lambda>s. unlistable_dirs fs (path_join d s)"
    let ?files = "map (\<lambda>f. p @ (if is_last_of (files_of fs d) f then ''`-- '' else ''|-- '') @ f)
                        (files_of fs d)"
    have level: "print_unbounded fs d p =
        (case for_loop ?body (dirs_of fs d) [] of Inl e \<Rightarrow> Inl e | Inr out \<Rightarrow> Inr (out @ ?files))"
      by (subst pdt_level) (simp only: Inr sum.case)
    have U: "unlistable_dirs fs d = concat (map (\<lambda>s. map ((#) s) (?V s)) (dirs_of fs d))"
      using Inr by (subst unlistable_dirs_rec) (simp add: listable_def)
    show ?thesis
    proof (cases "unlistable_dirs fs d = []")
      case True
      then have "\<forall>s\<in>set (dirs_of fs d). ?V s = []" unfolding U by auto
      then have "\<forall>s\<in>set (dirs_of fs d). \<exists>sub. ?F s = Inr sub" using "1.IH" by blast
      then have "list_all2 (\<lambda>s sub. ?F s = Inr sub) (dirs_of fs d)
                   (map (\<lambda>s. projr (?F s)) (dirs_of fs d))"
        by (rule list_all2_projr)
      then have "\<exists>out. print_unbounded fs d p = Inr out"
        using Inr by (subst pdt_Inr_iff) blast
      with True show ?thesis by simp
    next
      case False
      then have some: "concat (map (\<lambda>s. map ((#) s) (?V s)) (dirs_of fs d)) \<noteq> []"
        unfolding U .
      have "\<exists>e. for_loop ?body (dirs_of fs d) [] = Inl e \<and>
              listdir fs (d @ hd (concat (map (\<lambda>s. map ((#) s) (?V s)) (dirs_of fs d)))) = Inl e"
      proof (rule for_loop_first_error [where F = ?F and H = ?H and V = ?V
              and E = "\<lambda>q. listdir fs (d @ q)", OF refl _ _ some])
        fix s assume "s \<in> set (dirs_of fs d)" "?V s = []"
        then show "\<exists>sub. ?F s = Inr sub" using "1.IH" by blast
      next
        fix s assume "s \<in> set (dirs_of fs d)" "?V s \<noteq> []"
        then have "\<exists>e. ?F s = Inl e \<and> listdir fs (path_join d s @ hd (?V s)) = Inl e"
          using "1.IH" [of s] by blast
        then show "\<exists>e. ?F s = Inl e \<and> listdir fs (d @ s # hd (?V s)) = Inl e"
          by (simp add: path_join_def)
      qed
      then show ?thesis
        using False unfolding level U [symmetric] by (auto split: sum.splits)
    qed
  qed
qed

section \<open>Segments and splitting\<close>

lemma length_ancestor_segments: "length (ancestor_segments fs d ds) = length ds"
  by (induction ds arbitrary: d) simp_all

lemma ancestor_segments_nth:
  "k < length ds \<Longrightarrow>
   ancestor_segments fs d ds ! k =
     (if is_last_of (dirs_of fs (d @ take k ds)) (ds ! k) then ''    '' else ''|   '')"
proof (induction ds arbitrary: d k)
  case Nil
  then show ?case by simp
next
  case (Cons c cs)
  show ?case
  proof (cases k)
    case 0
    then show ?thesis by simp
  next
    case (Suc j)
    with Cons.prems have "j < length cs" by simp
    from Cons.IH [OF this, of "path_join d c"] Suc show ?thesis
      by (simp add: path_join_def)
  qed
qed

lemma length_concat_ancestor_segments:
  "length (concat (ancestor_segments fs d ds)) = 4 * length ds"
  by (induction ds arbitrary: d) simp_all

lemma upt_split: "i < n \<Longrightarrow> [0..<n] = [0..<i] @ i # [Suc i..<n]"
  by (metis le_add1 less_imp_add_positive upt_add_eq_append upt_conv_Cons plus_nat.add_0)

lemma split_on_no_sep: "c \<notin> set l \<Longrightarrow> split_on c l = [l]"
  by (induction l) auto

lemma split_on_append_sep:
  "c \<notin> set l \<Longrightarrow> split_on c (l @ c # rest) = l # split_on c rest"
  by (induction l) auto

lemma split_on_py_join:
  "lines \<noteq> [] \<Longrightarrow> \<forall>l\<in>set lines. c \<notin> set l \<Longrightarrow> split_on c (py_join [c] lines) = lines"
proof (induction "[c]" lines rule: py_join.induct)
  case 1
  then show ?case by simp
next
  case (2 x)
  then show ?case by (simp add: split_on_no_sep)
next
  case (3 x y ys)
  then show ?case by (simp add: split_on_append_sep)
qed

text \<open>
  Where every directory can be listed, the printer without the bound returns the line of
  every entry, in the order of the entries.
\<close>

lemma pdt_eval:
  assumes "unlistable_dirs fs d = []"
  shows "print_unbounded fs d p = Inr (map (line_of fs d p) (tree_entries fs d))"
proof -
  from assms obtain out where "print_unbounded fs d p = Inr out"
    using pdt_result [of fs d p] by blast
  then show ?thesis using pdt_lines by blast
qed

section \<open>The subtree below a directory\<close>

text \<open>
  What the library calls report below a directory depends on the subtree at that directory
  alone, and so do the entries and the unlistable directories below it.
\<close>

lemma lookup_reroot: "lookup fs d = Some n \<Longrightarrow> lookup fs (d @ q) = lookup n q"
  by (simp add: lookup_append)

lemma listdir_reroot: "lookup fs d = Some n \<Longrightarrow> listdir fs (d @ q) = listdir n q"
  by (simp add: listdir_def lookup_reroot)

lemma isdir_reroot: "lookup fs d = Some n \<Longrightarrow> isdir fs (d @ q) = isdir n q"
  by (simp add: isdir_def lookup_reroot)

lemma isfile_reroot: "lookup fs d = Some n \<Longrightarrow> isfile fs (d @ q) = isfile n q"
  by (simp add: isfile_def lookup_reroot)

lemma dirs_of_reroot: "lookup fs d = Some n \<Longrightarrow> dirs_of fs (d @ q) = dirs_of n q"
  using isdir_reroot [of fs d n "q @ [e]" for e]
  by (simp add: dirs_of_def listdir_reroot path_join_def split: sum.splits)

lemma files_of_reroot: "lookup fs d = Some n \<Longrightarrow> files_of fs (d @ q) = files_of n q"
  using isfile_reroot [of fs d n "q @ [e]" for e]
  by (simp add: files_of_def listdir_reroot path_join_def split: sum.splits)

lemma tree_entries_reroot:
  "lookup fs d = Some n \<Longrightarrow> tree_entries fs (d @ q) = tree_entries n q"
proof (induction n q arbitrary: fs d rule: tree_entries.induct)
  case (1 n q)
  have "tree_entries fs (path_join (d @ q) s) = tree_entries n (path_join q s)"
    if "s \<in> set (dirs_of n q)" for s
    using "1.IH" [OF that "1.prems"] by (simp add: path_join_def)
  then have "map (\<lambda>s. [s] # map ((#) s) (tree_entries fs (path_join (d @ q) s))) (dirs_of n q)
           = map (\<lambda>s. [s] # map ((#) s) (tree_entries n (path_join q s))) (dirs_of n q)"
    by simp
  then show ?case
    by (subst tree_entries.simps, subst (2) tree_entries.simps)
       (simp only: dirs_of_reroot [OF "1.prems"] files_of_reroot [OF "1.prems"])
qed


lemma nested_level:
  "dirs_of (nested (Suc n)) [] = [''d'']" "files_of (nested (Suc n)) [] = []"
  "lookup (nested (Suc n)) [''d''] = Some (nested n)" "listable (nested n) []"
  by (cases n; simp add: dirs_of_def files_of_def listdir_def isdir_def isfile_def path_join_def
        listable_def)+

lemma nested_entries: "length (tree_entries (nested n) []) = n"
proof (induction n)
  case 0
  then show ?case
    by (subst tree_entries.simps) (simp add: dirs_of_def files_of_def listdir_def)
next
  case (Suc n)
  have "tree_entries (nested (Suc n)) ([''d''] @ []) = tree_entries (nested n) []"
    by (rule tree_entries_reroot) (rule nested_level)
  with Suc show ?case
    by (subst tree_entries.simps) (simp add: nested_level path_join_def del: nested.simps)
qed


section \<open>The bound on the nesting\<close>

text \<open>
  One call of the printer, as for the printer without the bound; then the two compared.
  The printer returns lines exactly when the printer without the bound returns them and
  the tree below the directory is no deeper than the room; where it is no deeper the two
  agree on errors too; and an error of the printer is \<^verbatim>\<open>RecursionError\<close> or the listing
  error of a directory that cannot be listed.
\<close>

lemma pdt_level_bounded:
  "print_directory_tree room fs d p =
     (case listdir fs d of
        Inl e \<Rightarrow> Inl e
      | Inr names \<Rightarrow>
         (case for_loop (\<lambda>s out.
                 case (if room = 0 then Inl RecursionError
                       else print_directory_tree (room - 1) fs (path_join d s)
                        (p @ (if is_last_of (dirs_of fs d) s then ''    '' else ''|   ''))) of
                   Inl e \<Rightarrow> Inl e
                 | Inr sub \<Rightarrow>
                     Inr (out @ (p @ (if is_last_of (dirs_of fs d) s then ''`-- '' else ''|-- '')
                                   @ s @ ''/'') # sub))
               (dirs_of fs d) [] of
            Inl e \<Rightarrow> Inl e
          | Inr out \<Rightarrow>
              Inr (out @ map (\<lambda>f. p @ (if is_last_of (files_of fs d) f then ''`-- '' else ''|-- '') @ f)
                            (files_of fs d))))"
proof (cases "listdir fs d")
  case (Inl e)
  then show ?thesis by (subst print_directory_tree.simps) simp
next
  case (Inr names)
  let ?body = "\<lambda>s out.
                 case (if room = 0 then Inl RecursionError
                       else print_directory_tree (room - 1) fs (path_join d s)
                        (p @ (if is_last_of (dirs_of fs d) s then ''    '' else ''|   ''))) of
                   Inl e \<Rightarrow> Inl e
                 | Inr sub \<Rightarrow>
                     Inr (out @ (p @ (if is_last_of (dirs_of fs d) s then ''`-- '' else ''|-- '')
                                   @ s @ ''/'') # sub)"
  let ?line = "\<lambda>f. p @ (if is_last_of (files_of fs d) f then ''`-- '' else ''|-- '') @ f"
  have names: "filter (\<lambda>entry. isdir fs (path_join d entry)) (sort names) = dirs_of fs d"
    "filter (\<lambda>entry. isfile fs (path_join d entry)) (sort names) = files_of fs d"
    using Inr by (simp_all add: dirs_of_def files_of_def)
  have "for_loop (\<lambda>(i, file) output_lines.
                  Inr (output_lines @
                       [p @ (if int i = int (length (files_of fs d)) - 1
                             then ''`-- '' else ''|-- '') @ file]))
                  (enumerate 0 (files_of fs d)) out
        = for_loop (\<lambda>x output_lines. Inr (output_lines @ [?line (snd x)]))
                  (enumerate 0 (files_of fs d)) out" for out
    by (rule for_loop_cong) (auto simp: is_last_of_enumerate [OF distinct_files_of])
  also have "\<dots> out = Inr (out @ map (\<lambda>x. ?line (snd x)) (enumerate 0 (files_of fs d)))" for out
    by (rule for_loop_append) (rule refl)
  also have "map (\<lambda>x. ?line (snd x)) (enumerate 0 (files_of fs d)) = map ?line (files_of fs d)"
    by (simp only: map_map [symmetric, unfolded comp_def, of ?line snd] map_snd_enumerate)
  finally have files: "for_loop (\<lambda>(i, file) output_lines.
                  Inr (output_lines @
                       [p @ (if int i = int (length (files_of fs d)) - 1
                             then ''`-- '' else ''|-- '') @ file]))
                  (enumerate 0 (files_of fs d)) out
        = Inr (out @ map ?line (files_of fs d))" for out .
  have "for_loop (\<lambda>(i, subdir) output_lines.
                  case (if room = 0 then Inl RecursionError
                       else print_directory_tree (room - 1) fs (path_join d subdir)
                        (p @ (if int i = int (length (dirs_of fs d)) - 1
                               then ''    '' else ''|   ''))) of
                    Inl e \<Rightarrow> Inl e
                  | Inr sub \<Rightarrow>
                      Inr ((output_lines @
                            [p @ (if int i = int (length (dirs_of fs d)) - 1
                                  then ''`-- '' else ''|-- '') @ subdir @ ''/'']) @ sub))
                  (enumerate 0 (dirs_of fs d)) []
      = for_loop (\<lambda>x. ?body (snd x)) (enumerate 0 (dirs_of fs d)) []"
    by (rule for_loop_cong)
       (auto simp: is_last_of_enumerate [OF distinct_dirs_of] split: sum.splits)
  also have "\<dots> = for_loop ?body (map snd (enumerate 0 (dirs_of fs d))) []"
    by (simp only: for_loop_map)
  finally have dirs: "for_loop (\<lambda>(i, subdir) output_lines.
                  case (if room = 0 then Inl RecursionError
                       else print_directory_tree (room - 1) fs (path_join d subdir)
                        (p @ (if int i = int (length (dirs_of fs d)) - 1
                               then ''    '' else ''|   ''))) of
                    Inl e \<Rightarrow> Inl e
                  | Inr sub \<Rightarrow>
                      Inr ((output_lines @
                            [p @ (if int i = int (length (dirs_of fs d)) - 1
                                  then ''`-- '' else ''|-- '') @ subdir @ ''/'']) @ sub))
                  (enumerate 0 (dirs_of fs d)) []
      = for_loop ?body (dirs_of fs d) []"
    by (simp only: map_snd_enumerate)
  have "print_directory_tree room fs d p =
     (case for_loop (\<lambda>(i, subdir) output_lines.
                  case (if room = 0 then Inl RecursionError
                       else print_directory_tree (room - 1) fs (path_join d subdir)
                        (p @ (if int i = int (length (dirs_of fs d)) - 1
                               then ''    '' else ''|   ''))) of
                    Inl e \<Rightarrow> Inl e
                  | Inr sub \<Rightarrow>
                      Inr ((output_lines @
                            [p @ (if int i = int (length (dirs_of fs d)) - 1
                                  then ''`-- '' else ''|-- '') @ subdir @ ''/'']) @ sub))
                  (enumerate 0 (dirs_of fs d)) [] of
        Inl e \<Rightarrow> Inl e
      | Inr out \<Rightarrow>
          for_loop (\<lambda>(i, file) output_lines.
                  Inr (output_lines @
                       [p @ (if int i = int (length (files_of fs d)) - 1
                             then ''`-- '' else ''|-- '') @ file]))
                  (enumerate 0 (files_of fs d)) out)"
    by (subst print_directory_tree.simps) (simp only: Inr sum.case Let_def names)
  then show ?thesis
    unfolding dirs by (simp add: Inr files split: sum.splits)
qed

lemma pdt_Inr_iff_bounded:
  "print_directory_tree room fs d p = Inr out \<longleftrightarrow>
     (\<exists>names. listdir fs d = Inr names) \<and>
     (\<exists>subs. list_all2 (\<lambda>s sub. (if room = 0 then Inl RecursionError else print_directory_tree (room - 1) fs (path_join d s) (p @ (if is_last_of (dirs_of fs d) s then ''    '' else ''|   ''))) = Inr sub)
               (dirs_of fs d) subs
          \<and> out = concat (map2 (\<lambda>s sub. (p @ (if is_last_of (dirs_of fs d) s then ''`-- '' else ''|-- '')
                                              @ s @ ''/'') # sub) (dirs_of fs d) subs)
                  @ map (\<lambda>f. p @ (if is_last_of (files_of fs d) f then ''`-- '' else ''|-- '') @ f)
                        (files_of fs d))"
proof (cases "listdir fs d")
  case (Inl e)
  then show ?thesis by (subst pdt_level_bounded) simp
next
  case (Inr names)
  let ?F = "\<lambda>s. (if room = 0 then Inl RecursionError else print_directory_tree (room - 1) fs (path_join d s) (p @ (if is_last_of (dirs_of fs d) s then ''    '' else ''|   '')))"
  let ?H = "\<lambda>s. p @ (if is_last_of (dirs_of fs d) s then ''`-- '' else ''|-- '') @ s @ ''/''"
  let ?body = "\<lambda>s out. case ?F s of Inl e \<Rightarrow> Inl e | Inr sub \<Rightarrow> Inr (out @ ?H s # sub)"
  let ?files = "map (\<lambda>f. p @ (if is_last_of (files_of fs d) f then ''`-- '' else ''|-- '') @ f)
                        (files_of fs d)"
  have blocks: "for_loop ?body (dirs_of fs d) [] = Inr res \<longleftrightarrow>
         (\<exists>subs. list_all2 (\<lambda>x sub. ?F x = Inr sub) (dirs_of fs d) subs
                \<and> res = [] @ concat (map2 (\<lambda>x sub. ?H x # sub) (dirs_of fs d) subs))" for res
    by (rule for_loop_blocks) (rule refl)
  have level: "print_directory_tree room fs d p =
      (case for_loop ?body (dirs_of fs d) [] of Inl e \<Rightarrow> Inl e | Inr out \<Rightarrow> Inr (out @ ?files))"
    by (subst pdt_level_bounded) (simp only: Inr sum.case)
  show ?thesis
  proof (cases "for_loop ?body (dirs_of fs d) []")
    case (Inl e)
    then have "print_directory_tree room fs d p = Inl e" by (simp only: level sum.case)
    moreover have "\<not> (\<exists>subs. list_all2 (\<lambda>x sub. ?F x = Inr sub) (dirs_of fs d) subs)"
    proof
      assume "\<exists>subs. list_all2 (\<lambda>x sub. ?F x = Inr sub) (dirs_of fs d) subs"
      then obtain subs where "list_all2 (\<lambda>x sub. ?F x = Inr sub) (dirs_of fs d) subs" ..
      then have "for_loop ?body (dirs_of fs d) [] =
                   Inr ([] @ concat (map2 (\<lambda>x sub. ?H x # sub) (dirs_of fs d) subs))"
        unfolding blocks by blast
      with Inl show False by simp
    qed
    ultimately show ?thesis by auto
  next
    case res: (Inr res)
    then have out: "print_directory_tree room fs d p = Inr (res @ ?files)" by (simp only: level sum.case)
    show ?thesis
    proof
      assume "print_directory_tree room fs d p = Inr out"
      with out have "out = res @ ?files" by simp
      moreover from res obtain subs where "list_all2 (\<lambda>x sub. ?F x = Inr sub) (dirs_of fs d) subs"
        "res = [] @ concat (map2 (\<lambda>x sub. ?H x # sub) (dirs_of fs d) subs)"
        unfolding blocks by blast
      ultimately show "(\<exists>names. listdir fs d = Inr names) \<and>
         (\<exists>subs. list_all2 (\<lambda>s sub. ?F s = Inr sub) (dirs_of fs d) subs
          \<and> out = concat (map2 (\<lambda>s sub. ?H s # sub) (dirs_of fs d) subs) @ ?files)"
        using Inr by auto
    next
      assume "(\<exists>names. listdir fs d = Inr names) \<and>
         (\<exists>subs. list_all2 (\<lambda>s sub. ?F s = Inr sub) (dirs_of fs d) subs
          \<and> out = concat (map2 (\<lambda>s sub. ?H s # sub) (dirs_of fs d) subs) @ ?files)"
      then obtain subs where subs: "list_all2 (\<lambda>s sub. ?F s = Inr sub) (dirs_of fs d) subs"
        "out = concat (map2 (\<lambda>s sub. ?H s # sub) (dirs_of fs d) subs) @ ?files" by blast
      from subs(1) have "for_loop ?body (dirs_of fs d) [] =
                   Inr ([] @ concat (map2 (\<lambda>x sub. ?H x # sub) (dirs_of fs d) subs))"
        unfolding blocks by blast
      with res have "res = concat (map2 (\<lambda>x sub. ?H x # sub) (dirs_of fs d) subs)" by simp
      with subs(2) out show "print_directory_tree room fs d p = Inr out" by simp
    qed
  qed
qed

lemma foldr_max_le: "foldr max xs (0::nat) \<le> n \<longleftrightarrow> (\<forall>x\<in>set xs. x \<le> n)"
  by (induction xs) auto

lemma call_depth_le_iff:
  "call_depth fs d \<le> n \<longleftrightarrow>
     (\<forall>q\<in>set (tree_entries fs d). isdir fs (d @ q) \<longrightarrow> length q \<le> n)"
  by (auto simp: call_depth_def foldr_max_le)

lemma call_depth_sub:
  assumes "s \<in> set (dirs_of fs d)"
  shows "Suc (call_depth fs (path_join d s)) \<le> call_depth fs d"
proof -
  have all: "\<forall>q\<in>set (tree_entries fs d). isdir fs (d @ q) \<longrightarrow> length q \<le> call_depth fs d"
    using call_depth_le_iff [of fs d "call_depth fs d"] by simp
  have "[s] \<in> set (tree_entries fs d)" using assms by (simp add: tree_entries_Cons)
  moreover have "isdir fs (d @ [s])" using dirs_of_isdir [OF assms] by (simp add: path_join_def)
  ultimately have pos: "1 \<le> call_depth fs d" using all by fastforce
  have "call_depth fs (path_join d s) \<le> call_depth fs d - 1"
    unfolding call_depth_le_iff
  proof (intro ballI impI)
    fix q assume q: "q \<in> set (tree_entries fs (path_join d s))" "isdir fs (path_join d s @ q)"
    then have "s # q \<in> set (tree_entries fs d)" using assms by (simp add: tree_entries_Cons)
    moreover have "isdir fs (d @ s # q)" using q(2) by (simp add: path_join_def)
    ultimately have "length (s # q) \<le> call_depth fs d" using all by blast
    then show "length q \<le> call_depth fs d - 1" by simp
  qed
  with pos show ?thesis by simp
qed

lemma call_depth_le_intro:
  assumes "\<And>s. s \<in> set (dirs_of fs d) \<Longrightarrow> Suc (call_depth fs (path_join d s)) \<le> n"
  shows "call_depth fs d \<le> n"
  unfolding call_depth_le_iff
proof (intro ballI impI)
  fix q assume q: "q \<in> set (tree_entries fs d)" "isdir fs (d @ q)"
  from q(1) have "q \<noteq> []" by (rule tree_entries_nonempty)
  then obtain s r where sr: "q = s # r" by (cases q) auto
  show "length q \<le> n"
  proof (cases "r = []")
    case True
    with q sr have "s \<in> set (dirs_of fs d)" by (simp add: mem_dirs_of path_join_def)
    from assms [OF this] True sr show ?thesis by simp
  next
    case False
    with q sr have s: "s \<in> set (dirs_of fs d)" and r: "r \<in> set (tree_entries fs (path_join d s))"
      by (simp_all add: tree_entries_Cons)
    from q(2) sr have "isdir fs (path_join d s @ r)" by (simp add: path_join_def)
    with r have "length r \<le> call_depth fs (path_join d s)"
      using call_depth_le_iff [of fs "path_join d s" "call_depth fs (path_join d s)"] by blast
    with assms [OF s] sr show ?thesis by simp
  qed
qed

lemma pdt_bounded_eq_unbounded:
  "call_depth fs d \<le> room \<Longrightarrow> print_directory_tree room fs d p = print_unbounded fs d p"
proof (induction fs d arbitrary: room p rule: tree_entries.induct)
  case (1 fs d)
  have call: "(if room = 0 then Inl RecursionError
               else print_directory_tree (room - 1) fs (path_join d s) q)
              = print_unbounded fs (path_join d s) q"
    if "s \<in> set (dirs_of fs d)" for s q
  proof -
    from call_depth_sub [OF that] "1.prems"
    have "room \<noteq> 0" "call_depth fs (path_join d s) \<le> room - 1" by simp_all
    with "1.IH" [OF that] show ?thesis by simp
  qed
  have loop: "for_loop (\<lambda>s out.
                 case (if room = 0 then Inl RecursionError
                       else print_directory_tree (room - 1) fs (path_join d s)
                        (p @ (if is_last_of (dirs_of fs d) s then ''    '' else ''|   ''))) of
                   Inl e \<Rightarrow> Inl e
                 | Inr sub \<Rightarrow>
                     Inr (out @ (p @ (if is_last_of (dirs_of fs d) s then ''`-- '' else ''|-- '')
                                   @ s @ ''/'') # sub))
               (dirs_of fs d) []
      = for_loop (\<lambda>s out.
                 case print_unbounded fs (path_join d s)
                        (p @ (if is_last_of (dirs_of fs d) s then ''    '' else ''|   '')) of
                   Inl e \<Rightarrow> Inl e
                 | Inr sub \<Rightarrow>
                     Inr (out @ (p @ (if is_last_of (dirs_of fs d) s then ''`-- '' else ''|-- '')
                                   @ s @ ''/'') # sub))
               (dirs_of fs d) []"
    by (rule for_loop_cong) (simp_all only: call)
  show ?case
    by (subst pdt_level_bounded, subst pdt_level) (simp only: loop)
qed

lemma pdt_bounded_Inr_depth:
  "print_directory_tree room fs d p = Inr out \<Longrightarrow> call_depth fs d \<le> room"
proof (induction fs d arbitrary: room p out rule: tree_entries.induct)
  case (1 fs d)
  obtain subs where subs: "list_all2 (\<lambda>s sub.
      (if room = 0 then Inl RecursionError
       else print_directory_tree (room - 1) fs (path_join d s)
              (p @ (if is_last_of (dirs_of fs d) s then ''    '' else ''|   ''))) = Inr sub)
      (dirs_of fs d) subs"
    using pdt_Inr_iff_bounded [THEN iffD1, OF "1.prems"] by blast
  show ?case
  proof (rule call_depth_le_intro)
    fix s assume s: "s \<in> set (dirs_of fs d)"
    then obtain i where i: "i < length (dirs_of fs d)" "dirs_of fs d ! i = s"
      by (auto simp: in_set_conv_nth)
    have *: "(if room = 0 then Inl RecursionError
       else print_directory_tree (room - 1) fs (path_join d s)
              (p @ (if is_last_of (dirs_of fs d) s then ''    '' else ''|   ''))) = Inr (subs ! i)"
      using list_all2_nthD [OF subs i(1)] unfolding i(2) .
    then have "room \<noteq> 0" by (auto split: if_splits)
    with * have "print_directory_tree (room - 1) fs (path_join d s)
              (p @ (if is_last_of (dirs_of fs d) s then ''    '' else ''|   '')) = Inr (subs ! i)"
      by simp
    from "1.IH" [OF s this] \<open>room \<noteq> 0\<close> show "Suc (call_depth fs (path_join d s)) \<le> room"
      by simp
  qed
qed

lemma pdt_bounded_Inr_iff:
  "print_directory_tree room fs d p = Inr out \<longleftrightarrow>
     print_unbounded fs d p = Inr out \<and> call_depth fs d \<le> room"
  using pdt_bounded_eq_unbounded [of fs d room p] pdt_bounded_Inr_depth [of room fs d p out]
  by auto

lemma for_loop_Inl:
  assumes "\<And>x s. body x s = (case F x of Inl e \<Rightarrow> Inl e | Inr sub \<Rightarrow> Inr (s @ H x # sub))"
  shows "for_loop body xs acc = Inl e \<Longrightarrow> \<exists>x\<in>set xs. F x = Inl e"
proof (induction xs arbitrary: acc)
  case Nil
  then show ?case by simp
next
  case (Cons x xs)
  show ?case
  proof (cases "F x")
    case (Inl e')
    with Cons.prems have "e' = e" by (simp add: assms)
    with Inl show ?thesis by simp
  next
    case (Inr sub)
    then have "for_loop body (x # xs) acc = for_loop body xs (acc @ H x # sub)"
      by (simp add: assms)
    with Cons.prems have "for_loop body xs (acc @ H x # sub) = Inl e" by simp
    from Cons.IH [OF this] show ?thesis by simp
  qed
qed

lemma pdt_bounded_error:
  "print_directory_tree room fs d p = Inl e \<Longrightarrow>
   e = RecursionError \<or> (\<exists>q\<in>set (unlistable_dirs fs d). listdir fs (d @ q) = Inl e)"
proof (induction fs d arbitrary: room p rule: tree_entries.induct)
  case (1 fs d)
  show ?case
  proof (cases "listdir fs d")
    case (Inl e0)
    with "1.prems" have "e0 = e" by (subst (asm) pdt_level_bounded) simp
    moreover from Inl have "unlistable_dirs fs d = [[]]"
      by (subst unlistable_dirs_rec) (simp add: listable_def)
    ultimately show ?thesis using Inl by simp
  next
    case (Inr names)
    let ?F = "\<lambda>s. (if room = 0 then Inl RecursionError
       else print_directory_tree (room - 1) fs (path_join d s)
              (p @ (if is_last_of (dirs_of fs d) s then ''    '' else ''|   '')))"
    let ?H = "\<lambda>s. p @ (if is_last_of (dirs_of fs d) s then ''`-- '' else ''|-- '') @ s @ ''/''"
    let ?body = "\<lambda>s out. case ?F s of Inl e \<Rightarrow> Inl e | Inr sub \<Rightarrow> Inr (out @ ?H s # sub)"
    have U: "unlistable_dirs fs d
       = concat (map (\<lambda>s. map ((#) s) (unlistable_dirs fs (path_join d s))) (dirs_of fs d))"
      using Inr by (subst unlistable_dirs_rec) (simp add: listable_def)
    from "1.prems" Inr have "for_loop ?body (dirs_of fs d) [] = Inl e"
      by (subst (asm) pdt_level_bounded) (simp split: sum.splits)
    then obtain s where s: "s \<in> set (dirs_of fs d)" "?F s = Inl e"
      using for_loop_Inl [where F = ?F and H = ?H and body = ?body, OF refl] by blast
    show ?thesis
    proof (cases "room = 0")
      case True
      with s(2) show ?thesis by simp
    next
      case False
      with s(2) have "print_directory_tree (room - 1) fs (path_join d s)
              (p @ (if is_last_of (dirs_of fs d) s then ''    '' else ''|   '')) = Inl e"
        by simp
      from "1.IH" [OF s(1) this] show ?thesis
      proof
        assume "e = RecursionError" then show ?thesis ..
      next
        assume "\<exists>q\<in>set (unlistable_dirs fs (path_join d s)). listdir fs (path_join d s @ q) = Inl e"
        then obtain q where q: "q \<in> set (unlistable_dirs fs (path_join d s))"
          "listdir fs (path_join d s @ q) = Inl e" by blast
        from q(1) s(1) have "s # q \<in> set (unlistable_dirs fs d)" unfolding U by auto
        moreover from q(2) have "listdir fs (d @ s # q) = Inl e" by (simp add: path_join_def)
        ultimately show ?thesis by blast
      qed
    qed
  qed
qed

lemma pdt_eval_bounded:
  assumes "unlistable_dirs fs d = []" and "call_depth fs d \<le> room"
  shows "print_directory_tree room fs d p = Inr (map (line_of fs d p) (tree_entries fs d))"
  using pdt_eval [OF assms(1), of p] pdt_bounded_eq_unbounded [OF assms(2), of p] by simp

lemma pdt_lines_bounded:
  "print_directory_tree room fs d p = Inr out \<Longrightarrow>
   out = map (line_of fs d p) (tree_entries fs d)"
  using pdt_bounded_Inr_iff [of room fs d p out] pdt_lines [of fs d p out] by simp

lemma pdt_level_index_bounded:
  assumes "print_directory_tree room fs d p = Inr out"
  shows "\<exists>subs.
    length subs = length (dirs_of fs d) \<and>
    (\<forall>i<length (dirs_of fs d).
       0 < room \<and> print_directory_tree (room - 1) fs (path_join d (dirs_of fs d ! i))
         (p @ (if i = length (dirs_of fs d) - 1 then ''    '' else ''|   '')) = Inr (subs ! i)) \<and>
    out = concat (map (\<lambda>i. (p @ (if i = length (dirs_of fs d) - 1 then ''`-- '' else ''|-- '')
                               @ dirs_of fs d ! i @ ''/'') # subs ! i) [0..<length (dirs_of fs d)])
           @ map (\<lambda>j. p @ (if j = length (files_of fs d) - 1 then ''`-- '' else ''|-- '')
                          @ files_of fs d ! j) [0..<length (files_of fs d)]"
proof -
  from assms have unb: "print_unbounded fs d p = Inr out" and depth: "call_depth fs d \<le> room"
    by (simp_all add: pdt_bounded_Inr_iff)
  from pdt_level_index [OF unb] obtain subs where
    len: "length subs = length (dirs_of fs d)"
    and rec: "\<forall>i<length (dirs_of fs d).
       print_unbounded fs (path_join d (dirs_of fs d ! i))
         (p @ (if i = length (dirs_of fs d) - 1 then ''    '' else ''|   '')) = Inr (subs ! i)"
    and out: "out = concat (map (\<lambda>i. (p @ (if i = length (dirs_of fs d) - 1 then ''`-- '' else ''|-- '')
                               @ dirs_of fs d ! i @ ''/'') # subs ! i) [0..<length (dirs_of fs d)])
           @ map (\<lambda>j. p @ (if j = length (files_of fs d) - 1 then ''`-- '' else ''|-- '')
                          @ files_of fs d ! j) [0..<length (files_of fs d)]"
    by blast
  have "0 < room \<and> print_directory_tree (room - 1) fs (path_join d (dirs_of fs d ! i))
         (p @ (if i = length (dirs_of fs d) - 1 then ''    '' else ''|   '')) = Inr (subs ! i)"
    if "i < length (dirs_of fs d)" for i
  proof -
    from that have "dirs_of fs d ! i \<in> set (dirs_of fs d)" by simp
    from call_depth_sub [OF this] depth
    have "0 < room" "call_depth fs (path_join d (dirs_of fs d ! i)) \<le> room - 1" by simp_all
    with rec that pdt_bounded_eq_unbounded [of fs "path_join d (dirs_of fs d ! i)" "room - 1"]
    show ?thesis by simp
  qed
  with len out show ?thesis by blast
qed




section \<open>Well-formed UTF-8\<close>

lemma valid_utf8_append: "valid_utf8 xs \<Longrightarrow> valid_utf8 (xs @ ys) = valid_utf8 ys"
proof (induction xs rule: valid_utf8.induct)
  case 1
  then show ?case by simp
next
  case (2 a bs)
  from "2.prems" show ?case
    apply (subst (asm) valid_utf8.simps)
    apply (simp only: append_Cons)
    apply (subst valid_utf8.simps)
    apply (cases "in_range 0x00 0x7F a")
    subgoal using "2.IH"(1) by simp
    apply (cases "in_range 0xC2 0xDF a")
    subgoal using "2.IH"(2) by (cases bs) simp_all
    apply (cases "in_range 0xE0 0xEF a")
    subgoal using "2.IH"(3) by (cases bs; cases "tl bs") (simp_all del: One_nat_def)
    apply (cases "in_range 0xF0 0xF4 a")
    subgoal using "2.IH"(4) by (cases bs; cases "tl bs"; cases "tl (tl bs)") (simp_all del: One_nat_def)
    subgoal by simp
    done
qed

lemma valid_utf8_newline: "valid_utf8 (newline # xs) = valid_utf8 xs"
  by (subst valid_utf8.simps) (simp add: newline_def in_range_def)

lemma valid_utf8_py_join:
  "\<forall>l\<in>set lines. valid_utf8 l \<Longrightarrow> valid_utf8 (py_join [newline] lines)"
proof (induction "[newline]" lines rule: py_join.induct)
  case 1
  then show ?case by simp
next
  case (2 x)
  then show ?case by simp
next
  case (3 x y ys)
  then show ?case by (simp add: valid_utf8_append valid_utf8_newline)
qed

section \<open>Properties\<close>

text \<open>
  C1. In every call that returns, the output is the blocks of the subdirectories, one
  after the other, followed by the lines of the files of that directory. The block of the
  subdirectory at index \<open>i\<close> is its heading line followed by everything the recursive
  call on it returns, so every line of a subdirectory, heading or descendant, comes before
  every file line of the same directory, whatever the names are. In the witness the file
  \<open>a.txt\<close> sorts before the subdirectory \<open>z\<close> and is printed after it.
\<close>

theorem subdirectory_blocks_precede_files:
  assumes "print_directory_tree room fs directory prefix = Inr out"
  shows "\<exists>blocks file_lines.
           out = concat blocks @ file_lines
         \<and> length blocks = length (dirs_of fs directory)
         \<and> length file_lines = length (files_of fs directory)
         \<and> (\<forall>i<length (dirs_of fs directory). \<exists>sub.
               0 < room
              \<and> print_directory_tree (room - 1) fs
                   (path_join directory (dirs_of fs directory ! i))
                 (prefix @ (if i = length (dirs_of fs directory) - 1 then ''    '' else ''|   ''))
                 = Inr sub
             \<and> blocks ! i =
                 (prefix @ (if i = length (dirs_of fs directory) - 1 then ''`-- '' else ''|-- '')
                    @ dirs_of fs directory ! i @ ''/'') # sub)
         \<and> (\<forall>j<length (files_of fs directory). \<exists>glyph.
               file_lines ! j = prefix @ glyph @ files_of fs directory ! j)"
proof -
  obtain subs where
    len: "length subs = length (dirs_of fs directory)"
    and rec: "\<forall>i<length (dirs_of fs directory).
       0 < room
              \<and> print_directory_tree (room - 1) fs
                   (path_join directory (dirs_of fs directory ! i))
         (prefix @ (if i = length (dirs_of fs directory) - 1 then ''    '' else ''|   ''))
        = Inr (subs ! i)"
    and out: "out = concat (map (\<lambda>i. (prefix @ (if i = length (dirs_of fs directory) - 1
                                                 then ''`-- '' else ''|-- '')
                               @ dirs_of fs directory ! i @ ''/'') # subs ! i)
                          [0..<length (dirs_of fs directory)])
           @ map (\<lambda>j. prefix @ (if j = length (files_of fs directory) - 1 then ''`-- '' else ''|-- '')
                          @ files_of fs directory ! j) [0..<length (files_of fs directory)]"
    using pdt_level_index_bounded [OF assms] by blast
  show ?thesis
    apply (rule exI [where x = "map (\<lambda>i. (prefix @ (if i = length (dirs_of fs directory) - 1
                                                 then ''`-- '' else ''|-- '')
                               @ dirs_of fs directory ! i @ ''/'') # subs ! i)
                          [0..<length (dirs_of fs directory)]"])
    apply (rule exI [where x = "map (\<lambda>j. prefix @ (if j = length (files_of fs directory) - 1
                                                 then ''`-- '' else ''|-- '')
                          @ files_of fs directory ! j) [0..<length (files_of fs directory)]"])
    using rec by (simp add: out)
qed

theorem subdirectory_blocks_precede_files_witness:
  "print_directory_tree 1000 (Dir [(''a.txt'', File), (''z'', Dir [(''q'', File)])]) [] []
     = Inr [''`-- z/'', ''    `-- q'', ''`-- a.txt'']
   \<and> ''a.txt'' < ''z''
   \<and> (\<exists>blocks file_lines.
         [''`-- z/'', ''    `-- q'', ''`-- a.txt''] = concat blocks @ file_lines
       \<and> length blocks = 1 \<and> length file_lines = 1)"
proof -
  let ?fs = "Dir [(''a.txt'', File), (''z'', Dir [(''q'', File)])]"
  have u: "unlistable_dirs ?fs [] = []" by code_simp
  have cd: "call_depth ?fs [] \<le> 1000" by code_simp
  have "map (line_of ?fs [] []) (tree_entries ?fs []) = [''`-- z/'', ''    `-- q'', ''`-- a.txt'']"
    by code_simp
  with pdt_eval_bounded [OF u cd, of "[]"]
  have run: "print_directory_tree 1000 ?fs [] [] = Inr [''`-- z/'', ''    `-- q'', ''`-- a.txt'']"
    by simp
  have ds: "dirs_of ?fs [] = [''z'']" and fs: "files_of ?fs [] = [''a.txt'']" by code_simp+
  have lt: "''a.txt'' < ''z''" by code_simp
  from subdirectory_blocks_precede_files [OF run]
  have "\<exists>blocks file_lines.
         [''`-- z/'', ''    `-- q'', ''`-- a.txt''] = concat blocks @ file_lines
       \<and> length blocks = 1 \<and> length file_lines = 1"
    unfolding ds fs by auto
  with run lt show ?thesis by blast
qed

text \<open>
  C2. In every call that returns, the last lines of the output are the lines of the files
  of the directory: the names for which \<^verbatim>\<open>isfile\<close> holds, each once, in ascending order
  of the strings (lexicographic by character code, so upper case sorts before lower
  case), each after the prefix and its glyph, which is \<open>`-- \<close> for the last file and
  \<open>|-- \<close> for every other. The witness is the directory holding \<open>b.txt\<close> and
  \<open>a.txt\<close>.
\<close>

theorem files_listed_in_sorted_order:
  assumes "print_directory_tree room fs directory prefix = Inr out"
  shows "sorted (files_of fs directory) \<and> distinct (files_of fs directory)
       \<and> set (files_of fs directory) = {entry. isfile fs (path_join directory entry)}
       \<and> length (files_of fs directory) \<le> length out
       \<and> drop (length out - length (files_of fs directory)) out
           = map (\<lambda>j. prefix
                        @ (if j = length (files_of fs directory) - 1 then ''`-- '' else ''|-- '')
                        @ files_of fs directory ! j)
                 [0..<length (files_of fs directory)]"
proof -
  obtain subs where
    out: "out = concat (map (\<lambda>i. (prefix @ (if i = length (dirs_of fs directory) - 1
                                                 then ''`-- '' else ''|-- '')
                               @ dirs_of fs directory ! i @ ''/'') # subs ! i)
                          [0..<length (dirs_of fs directory)])
           @ map (\<lambda>j. prefix @ (if j = length (files_of fs directory) - 1 then ''`-- '' else ''|-- '')
                          @ files_of fs directory ! j) [0..<length (files_of fs directory)]"
    using pdt_level_index_bounded [OF assms] by blast
  have "set (files_of fs directory) = {entry. isfile fs (path_join directory entry)}"
    by (auto simp: mem_files_of)
  moreover have "length (files_of fs directory) \<le> length out"
    by (subst out) simp
  moreover have "drop (length out - length (files_of fs directory)) out
           = map (\<lambda>j. prefix
                        @ (if j = length (files_of fs directory) - 1 then ''`-- '' else ''|-- '')
                        @ files_of fs directory ! j)
                 [0..<length (files_of fs directory)]"
    by (subst (1 2) out) simp
  ultimately show ?thesis
    using sorted_files_of distinct_files_of by blast
qed

theorem files_listed_in_sorted_order_witness:
  "print_directory_tree 1000 (Dir [(''b.txt'', File), (''a.txt'', File)]) [] []
     = Inr [''|-- a.txt'', ''`-- b.txt'']
   \<and> files_of (Dir [(''b.txt'', File), (''a.txt'', File)]) [] = [''a.txt'', ''b.txt'']
   \<and> sorted [''a.txt'', ''b.txt'']
   \<and> drop (2 - 2) [''|-- a.txt'', ''`-- b.txt''] = [''|-- a.txt'', ''`-- b.txt'']"
proof -
  let ?fs = "Dir [(''b.txt'', File), (''a.txt'', File)]"
  have u: "unlistable_dirs ?fs [] = []" by code_simp
  have cd: "call_depth ?fs [] \<le> 1000" by code_simp
  have "map (line_of ?fs [] []) (tree_entries ?fs []) = [''|-- a.txt'', ''`-- b.txt'']"
    by code_simp
  with pdt_eval_bounded [OF u cd, of "[]"]
  have run: "print_directory_tree 1000 ?fs [] [] = Inr [''|-- a.txt'', ''`-- b.txt'']"
    by simp
  have fs: "files_of ?fs [] = [''a.txt'', ''b.txt'']" by code_simp
  from files_listed_in_sorted_order [OF run]
  have "sorted [''a.txt'', ''b.txt'']
    \<and> drop (2 - 2) [''|-- a.txt'', ''`-- b.txt''] = [''|-- a.txt'', ''`-- b.txt'']"
    unfolding fs by simp
  with run fs show ?thesis by blast
qed

text \<open>
  C3. The heading line of the subdirectory at index \<open>i\<close> among the \<open>n\<close>
  subdirectories of a level bears \<open>`-- \<close> when \<open>i = n - 1\<close> and \<open>|-- \<close> otherwise: the
  glyph is a function of \<open>i\<close> and \<open>n\<close> alone, and the files of the level, whose lines
  follow the blocks, have no part in it. In the witness the last subdirectory bears
  \<open>`-- \<close> although a file line follows it.
\<close>

theorem subdirectory_glyph_depends_on_index_only:
  assumes "print_directory_tree room fs directory prefix = Inr out"
  shows "\<exists>blocks file_lines.
           out = concat blocks @ file_lines
         \<and> length blocks = length (dirs_of fs directory)
         \<and> length file_lines = length (files_of fs directory)
         \<and> (\<forall>i<length (dirs_of fs directory).
               blocks ! i \<noteq> []
             \<and> hd (blocks ! i) =
                 prefix @ (if i = length (dirs_of fs directory) - 1 then ''`-- '' else ''|-- '')
                    @ dirs_of fs directory ! i @ ''/'')"
proof -
  obtain subs where
    out: "out = concat (map (\<lambda>i. (prefix @ (if i = length (dirs_of fs directory) - 1
                                                 then ''`-- '' else ''|-- '')
                               @ dirs_of fs directory ! i @ ''/'') # subs ! i)
                          [0..<length (dirs_of fs directory)])
           @ map (\<lambda>j. prefix @ (if j = length (files_of fs directory) - 1 then ''`-- '' else ''|-- '')
                          @ files_of fs directory ! j) [0..<length (files_of fs directory)]"
    using pdt_level_index_bounded [OF assms] by blast
  show ?thesis
    apply (rule exI [where x = "map (\<lambda>i. (prefix @ (if i = length (dirs_of fs directory) - 1
                                                 then ''`-- '' else ''|-- '')
                               @ dirs_of fs directory ! i @ ''/'') # subs ! i)
                          [0..<length (dirs_of fs directory)]"])
    apply (rule exI [where x = "map (\<lambda>j. prefix @ (if j = length (files_of fs directory) - 1
                                                 then ''`-- '' else ''|-- '')
                          @ files_of fs directory ! j) [0..<length (files_of fs directory)]"])
    by (simp add: out)
qed

theorem subdirectory_glyph_depends_on_index_only_witness:
  "print_directory_tree 1000 (Dir [(''f.txt'', File), (''sub'', Dir []), (''lib'', Dir [])]) [] []
     = Inr [''|-- lib/'', ''`-- sub/'', ''`-- f.txt'']
   \<and> (\<exists>blocks file_lines.
         [''|-- lib/'', ''`-- sub/'', ''`-- f.txt''] = concat blocks @ file_lines
       \<and> length blocks = 2 \<and> length file_lines = 1
       \<and> hd (blocks ! 0) = ''|-- lib/'' \<and> hd (blocks ! 1) = ''`-- sub/'')"
proof -
  let ?fs = "Dir [(''f.txt'', File), (''sub'', Dir []), (''lib'', Dir [])]"
  have u: "unlistable_dirs ?fs [] = []" by code_simp
  have cd: "call_depth ?fs [] \<le> 1000" by code_simp
  have "map (line_of ?fs [] []) (tree_entries ?fs []) = [''|-- lib/'', ''`-- sub/'', ''`-- f.txt'']"
    by code_simp
  with pdt_eval_bounded [OF u cd, of "[]"]
  have run: "print_directory_tree 1000 ?fs [] [] = Inr [''|-- lib/'', ''`-- sub/'', ''`-- f.txt'']"
    by simp
  have ds: "dirs_of ?fs [] = [''lib'', ''sub'']" and fs: "files_of ?fs [] = [''f.txt'']"
    by code_simp+
  from subdirectory_glyph_depends_on_index_only [OF run]
  have "\<exists>blocks file_lines.
         [''|-- lib/'', ''`-- sub/'', ''`-- f.txt''] = concat blocks @ file_lines
       \<and> length blocks = 2 \<and> length file_lines = 1
       \<and> hd (blocks ! 0) = ''|-- lib/'' \<and> hd (blocks ! 1) = ''`-- sub/''"
    unfolding ds fs by (auto simp: less_Suc_eq numeral_2_eq_2)
  with run show ?thesis by blast
qed

text \<open>
  C4. The recursive call on the subdirectory at index \<open>i\<close> of \<open>n\<close> receives the
  current prefix extended by four spaces when \<open>i = n - 1\<close> and by a bar and three spaces
  otherwise, and what it returns stands in the output right after the heading of that
  subdirectory. Consequently the line of a file that lies below the directories \<open>ds\<close>
  (so \<open>length ds\<close> levels down) is the prefix of the outermost call, then one segment
  of four characters for each directory of \<open>ds\<close>, the segment of an ancestor being four
  spaces if it is the last subdirectory of its parent and a bar and three spaces if not,
  then the glyph and the name of the file. For the outermost call of the program the
  prefix is empty.
\<close>

theorem child_prefix_extends_by_one_segment:
  assumes "print_directory_tree room fs directory prefix = Inr out"
  shows "(\<forall>i<length (dirs_of fs directory). \<exists>sub before after.
            0 < room
              \<and> print_directory_tree (room - 1) fs
                   (path_join directory (dirs_of fs directory ! i))
              (prefix @ (if i = length (dirs_of fs directory) - 1 then ''    '' else ''|   ''))
              = Inr sub
          \<and> out = before
                @ ((prefix @ (if i = length (dirs_of fs directory) - 1 then ''`-- '' else ''|-- '')
                      @ dirs_of fs directory ! i @ ''/'') # sub)
                @ after)
       \<and> (\<forall>ds f. isfile fs (directory @ ds @ [f]) \<longrightarrow>
            length (ancestor_segments fs directory ds) = length ds
          \<and> length (concat (ancestor_segments fs directory ds)) = 4 * length ds
          \<and> (\<forall>k<length ds.
                ancestor_segments fs directory ds ! k =
                  (if is_last_of (dirs_of fs (directory @ take k ds)) (ds ! k)
                   then ''    '' else ''|   ''))
          \<and> (\<exists>k<length out.
                tree_entries fs directory ! k = ds @ [f]
              \<and> out ! k = prefix @ concat (ancestor_segments fs directory ds)
                           @ (if is_last_of (files_of fs (directory @ ds)) f
                              then ''`-- '' else ''|-- '') @ f))"
proof (intro conjI allI impI)
  fix i assume i: "i < length (dirs_of fs directory)"
  let ?B = "\<lambda>i. (prefix @ (if i = length (dirs_of fs directory) - 1 then ''`-- '' else ''|-- '')
                               @ dirs_of fs directory ! i @ ''/'')"
  obtain subs where
    rec: "\<forall>i<length (dirs_of fs directory).
       0 < room
              \<and> print_directory_tree (room - 1) fs
                   (path_join directory (dirs_of fs directory ! i))
         (prefix @ (if i = length (dirs_of fs directory) - 1 then ''    '' else ''|   ''))
        = Inr (subs ! i)"
    and out: "out = concat (map (\<lambda>i. ?B i # subs ! i) [0..<length (dirs_of fs directory)])
           @ map (\<lambda>j. prefix @ (if j = length (files_of fs directory) - 1 then ''`-- '' else ''|-- '')
                          @ files_of fs directory ! j) [0..<length (files_of fs directory)]"
    using pdt_level_index_bounded [OF assms] by blast
  have "out = concat (map (\<lambda>i. ?B i # subs ! i) [0..<i])
          @ (?B i # subs ! i)
          @ (concat (map (\<lambda>i. ?B i # subs ! i) [Suc i..<length (dirs_of fs directory)])
             @ map (\<lambda>j. prefix @ (if j = length (files_of fs directory) - 1 then ''`-- '' else ''|-- '')
                          @ files_of fs directory ! j) [0..<length (files_of fs directory)])"
    by (subst out, subst upt_split [OF i]) simp
  with rec i show "\<exists>sub before after.
            0 < room
              \<and> print_directory_tree (room - 1) fs
                   (path_join directory (dirs_of fs directory ! i))
              (prefix @ (if i = length (dirs_of fs directory) - 1 then ''    '' else ''|   ''))
              = Inr sub
          \<and> out = before @ (?B i # sub) @ after"
    by blast
next
  fix ds f assume "isfile fs (directory @ ds @ [f])"
  show "length (ancestor_segments fs directory ds) = length ds"
    by (rule length_ancestor_segments)
next
  fix ds f assume "isfile fs (directory @ ds @ [f])"
  show "length (concat (ancestor_segments fs directory ds)) = 4 * length ds"
    by (rule length_concat_ancestor_segments)
next
  fix ds :: path and f :: string and k assume "k < length ds"
  then show "ancestor_segments fs directory ds ! k =
                  (if is_last_of (dirs_of fs (directory @ take k ds)) (ds ! k)
                   then ''    '' else ''|   '')"
    by (rule ancestor_segments_nth)
next
  fix ds f assume f: "isfile fs (directory @ ds @ [f])"
  have out: "out = map (line_of fs directory prefix) (tree_entries fs directory)"
    using assms by (rule pdt_lines_bounded)
  from f have "ds @ [f] \<in> set (tree_entries fs directory)"
    by (simp add: tree_entries_iff)
  then obtain k where k: "k < length (tree_entries fs directory)"
    "tree_entries fs directory ! k = ds @ [f]"
    by (auto simp: in_set_conv_nth)
  from f have "\<not> isdir fs (directory @ ds @ [f])" by (rule isfile_not_isdir)
  then have "line_of fs directory prefix (ds @ [f]) =
      prefix @ concat (ancestor_segments fs directory ds)
             @ (if is_last_of (files_of fs (directory @ ds)) f then ''`-- '' else ''|-- '') @ f"
    by (simp add: line_of_snoc)
  with k show "\<exists>k<length out.
                tree_entries fs directory ! k = ds @ [f]
              \<and> out ! k = prefix @ concat (ancestor_segments fs directory ds)
                           @ (if is_last_of (files_of fs (directory @ ds)) f
                              then ''`-- '' else ''|-- '') @ f"
    unfolding out by (intro exI [of _ k]) simp
qed

theorem child_prefix_extends_by_one_segment_witness:
  "print_directory_tree 1000
     (Dir [(''a'', Dir [(''b'', Dir [(''f'', File)])]), (''z'', Dir [])]) [] []
     = Inr [''|-- a/'', ''|   `-- b/'', ''|       `-- f'', ''`-- z/'']
   \<and> isfile (Dir [(''a'', Dir [(''b'', Dir [(''f'', File)])]), (''z'', Dir [])])
        ([] @ [''a'', ''b''] @ [''f''])
   \<and> ancestor_segments (Dir [(''a'', Dir [(''b'', Dir [(''f'', File)])]), (''z'', Dir [])])
        [] [''a'', ''b''] = [''|   '', ''    '']
   \<and> (\<exists>k<4.
         tree_entries (Dir [(''a'', Dir [(''b'', Dir [(''f'', File)])]), (''z'', Dir [])]) [] ! k
           = [''a'', ''b''] @ [''f'']
       \<and> [''|-- a/'', ''|   `-- b/'', ''|       `-- f'', ''`-- z/''] ! k = ''|       `-- f'')"
proof -
  let ?fs = "Dir [(''a'', Dir [(''b'', Dir [(''f'', File)])]), (''z'', Dir [])]"
  let ?out = "[''|-- a/'', ''|   `-- b/'', ''|       `-- f'', ''`-- z/'']"
  have u: "unlistable_dirs ?fs [] = []" by code_simp
  have cd: "call_depth ?fs [] \<le> 1000" by code_simp
  have "map (line_of ?fs [] []) (tree_entries ?fs []) = ?out"
    by code_simp
  with pdt_eval_bounded [OF u cd, of "[]"]
  have run: "print_directory_tree 1000 ?fs [] [] = Inr ?out"
    by simp
  have f: "isfile ?fs ([] @ [''a'', ''b''] @ [''f''])" by code_simp
  have segs: "ancestor_segments ?fs [] [''a'', ''b''] = [''|   '', ''    '']" by code_simp
  have last: "is_last_of (files_of ?fs ([] @ [''a'', ''b''])) ''f''" by code_simp
  from child_prefix_extends_by_one_segment [OF run, THEN conjunct2, rule_format, OF f]
  have "\<exists>k<length ?out.
         tree_entries ?fs [] ! k = [''a'', ''b''] @ [''f'']
       \<and> ?out ! k = [] @ concat (ancestor_segments ?fs [] [''a'', ''b''])
                    @ (if is_last_of (files_of ?fs ([] @ [''a'', ''b''])) ''f''
                       then ''`-- '' else ''|-- '') @ ''f''"
    by blast
  then have "\<exists>k<4. tree_entries ?fs [] ! k = [''a'', ''b''] @ [''f'']
       \<and> ?out ! k = ''|       `-- f''"
    unfolding segs using last by (simp add: eval_nat_numeral)
  with run f segs show ?thesis by blast
qed

text \<open>
  C5. Every line of a returned output belongs to one entry, a directory or a file, and
  consists of an indentation, a glyph and the name of the entry, followed by \<open>/\<close> when
  the entry is a directory and by nothing when it is a file.
\<close>

theorem directory_names_end_with_slash:
  assumes "print_directory_tree room fs directory prefix = Inr out"
  shows "length out = length (tree_entries fs directory)
       \<and> (\<forall>k<length out. \<exists>indent glyph.
             (glyph = ''`-- '' \<or> glyph = ''|-- '')
           \<and> (isdir fs (directory @ tree_entries fs directory ! k)
                \<or> isfile fs (directory @ tree_entries fs directory ! k))
           \<and> out ! k = indent @ glyph @ last (tree_entries fs directory ! k)
                         @ (if isdir fs (directory @ tree_entries fs directory ! k)
                            then ''/'' else []))"
proof (intro conjI allI impI)
  have out: "out = map (line_of fs directory prefix) (tree_entries fs directory)"
    using assms by (rule pdt_lines_bounded)
  then show len: "length out = length (tree_entries fs directory)" by simp
  fix k assume "k < length out"
  with len have k: "k < length (tree_entries fs directory)" by simp
  let ?q = "tree_entries fs directory ! k"
  from k have mem: "?q \<in> set (tree_entries fs directory)" by simp
  then have ne: "?q \<noteq> []" and kind: "isfile fs (directory @ ?q) \<or> isdir fs (directory @ ?q)"
    by (simp_all add: tree_entries_iff)
  from ne have q: "?q = butlast ?q @ [last ?q]" by simp
  have "out ! k = line_of fs directory prefix (butlast ?q @ [last ?q])"
    using k q by (simp add: out)
  also have "\<dots> = (prefix @ concat (ancestor_segments fs directory (butlast ?q)))
      @ (if isdir fs (directory @ ?q)
         then (if is_last_of (dirs_of fs (directory @ butlast ?q)) (last ?q)
               then ''`-- '' else ''|-- '')
         else (if is_last_of (files_of fs (directory @ butlast ?q)) (last ?q)
               then ''`-- '' else ''|-- ''))
      @ last ?q @ (if isdir fs (directory @ ?q) then ''/'' else [])"
    using q by (subst line_of_snoc) simp
  finally show "\<exists>indent glyph.
             (glyph = ''`-- '' \<or> glyph = ''|-- '')
           \<and> (isdir fs (directory @ ?q) \<or> isfile fs (directory @ ?q))
           \<and> out ! k = indent @ glyph @ last ?q
                         @ (if isdir fs (directory @ ?q) then ''/'' else [])"
    using kind by (intro exI [of _ "prefix @ concat (ancestor_segments fs directory (butlast ?q))"]
                  exI [of _ "if isdir fs (directory @ ?q)
         then (if is_last_of (dirs_of fs (directory @ butlast ?q)) (last ?q)
               then ''`-- '' else ''|-- '')
         else (if is_last_of (files_of fs (directory @ butlast ?q)) (last ?q)
               then ''`-- '' else ''|-- '')"]) auto
qed

theorem directory_names_end_with_slash_witness:
  "print_directory_tree 1000 (Dir [(''notes'', File), (''docs'', Dir [])]) [] []
     = Inr [''`-- docs/'', ''`-- notes'']
   \<and> tree_entries (Dir [(''notes'', File), (''docs'', Dir [])]) [] = [[''docs''], [''notes'']]
   \<and> isdir (Dir [(''notes'', File), (''docs'', Dir [])]) [''docs'']
   \<and> \<not> isdir (Dir [(''notes'', File), (''docs'', Dir [])]) [''notes'']
   \<and> (\<exists>indent glyph. [''`-- docs/'', ''`-- notes''] ! 0 = indent @ glyph @ ''docs'' @ ''/'')
   \<and> (\<exists>indent glyph. [''`-- docs/'', ''`-- notes''] ! 1 = indent @ glyph @ ''notes'' @ [])"
proof -
  let ?fs = "Dir [(''notes'', File), (''docs'', Dir [])]"
  let ?out = "[''`-- docs/'', ''`-- notes'']"
  have u: "unlistable_dirs ?fs [] = []" by code_simp
  have cd: "call_depth ?fs [] \<le> 1000" by code_simp
  have "map (line_of ?fs [] []) (tree_entries ?fs []) = ?out"
    by code_simp
  with pdt_eval_bounded [OF u cd, of "[]"]
  have run: "print_directory_tree 1000 ?fs [] [] = Inr ?out"
    by simp
  have te: "tree_entries ?fs [] = [[''docs''], [''notes'']]" by code_simp
  have d: "isdir ?fs [''docs'']" and f: "\<not> isdir ?fs [''notes'']" by code_simp+
  note all = directory_names_end_with_slash [OF run, THEN conjunct2, rule_format]
  have "\<exists>indent glyph. ?out ! 0 = indent @ glyph @ ''docs'' @ ''/''"
    using all [of 0] d unfolding te by auto
  moreover have "\<exists>indent glyph. ?out ! 1 = indent @ glyph @ ''notes'' @ []"
    using all [of 1] f unfolding te by auto
  ultimately show ?thesis using run te d f by blast
qed

text \<open>
  C6, as stated, fails: a directory whose only entry is neither a file nor a directory
  for \<^verbatim>\<open>isfile\<close> and \<^verbatim>\<open>isdir\<close> (a dangling symbolic link, say) has one child and an
  output of no line.
\<close>

theorem unclassified_entry_has_no_line:
  "listdir (Dir [(''dangling'', Special)]) [] = Inr [''dangling'']
   \<and> print_directory_tree 1000 (Dir [(''dangling'', Special)]) [] [] = Inr []"
proof -
  let ?fs = "Dir [(''dangling'', Special)]"
  have u: "unlistable_dirs ?fs [] = []" by code_simp
  have cd: "call_depth ?fs [] \<le> 1000" by code_simp
  have "map (line_of ?fs [] []) (tree_entries ?fs []) = []"
    by code_simp
  with pdt_eval_bounded [OF u cd, of "[]"]
  have "print_directory_tree 1000 ?fs [] [] = Inr []" by simp
  moreover have "listdir ?fs [] = Inr [''dangling'']" by code_simp
  ultimately show ?thesis by blast
qed

text \<open>
  C6, amended. The lines of a returned output are in one-to-one correspondence with the
  entries below the directory, direct and transitive, that are files or directories for
  \<^verbatim>\<open>isfile\<close> and \<^verbatim>\<open>isdir\<close>: the list of these entries has no repetition, it holds
  exactly the non-empty relative paths that lead to a file or a directory, it is as long
  as the output, and the line at each position is the line of the entry at that position.
  An entry that is neither a file nor a directory has no line.
\<close>

theorem lines_correspond_to_files_and_directories:
  assumes "print_directory_tree room fs directory prefix = Inr out"
  shows "length out = length (tree_entries fs directory)
       \<and> distinct (tree_entries fs directory)
       \<and> set (tree_entries fs directory)
           = {q. q \<noteq> [] \<and> (isfile fs (directory @ q) \<or> isdir fs (directory @ q))}
       \<and> (\<forall>k<length out. out ! k = line_of fs directory prefix (tree_entries fs directory ! k))"
proof -
  have out: "out = map (line_of fs directory prefix) (tree_entries fs directory)"
    using assms by (rule pdt_lines_bounded)
  have "set (tree_entries fs directory)
           = {q. q \<noteq> [] \<and> (isfile fs (directory @ q) \<or> isdir fs (directory @ q))}"
    by (auto simp: tree_entries_iff)
  then show ?thesis
    using distinct_tree_entries [of fs directory] by (simp add: out)
qed

theorem lines_correspond_to_files_and_directories_witness:
  "print_directory_tree 1000
     (Dir [(''f'', File), (''d'', Dir [(''g'', File), (''sock'', Special)]), (''link'', Special)]) [] []
     = Inr [''`-- d/'', ''    `-- g'', ''`-- f'']
   \<and> tree_entries
     (Dir [(''f'', File), (''d'', Dir [(''g'', File), (''sock'', Special)]), (''link'', Special)]) []
     = [[''d''], [''d'', ''g''], [''f'']]
   \<and> length [''`-- d/'', ''    `-- g'', ''`-- f''] = length [[''d''], [''d'', ''g''], [''f'']]
   \<and> distinct [[''d''], [''d'', ''g''], [''f'']]"
proof -
  let ?fs = "Dir [(''f'', File), (''d'', Dir [(''g'', File), (''sock'', Special)]), (''link'', Special)]"
  let ?out = "[''`-- d/'', ''    `-- g'', ''`-- f'']"
  have u: "unlistable_dirs ?fs [] = []" by code_simp
  have cd: "call_depth ?fs [] \<le> 1000" by code_simp
  have "map (line_of ?fs [] []) (tree_entries ?fs []) = ?out"
    by code_simp
  with pdt_eval_bounded [OF u cd, of "[]"]
  have run: "print_directory_tree 1000 ?fs [] [] = Inr ?out"
    by simp
  have te: "tree_entries ?fs [] = [[''d''], [''d'', ''g''], [''f'']]" by code_simp
  from lines_correspond_to_files_and_directories [OF run]
  have "length ?out = length [[''d''], [''d'', ''g''], [''f'']]
      \<and> distinct [[''d''], [''d'', ''g''], [''f'']]"
    unfolding te by blast
  with run te show ?thesis by blast
qed

text \<open>
  C7. For an empty directory, one whose listing has no entries, the printer returns the
  empty sequence of lines, whatever the prefix and whatever room the stack has.
\<close>

theorem empty_directory_renders_nothing:
  "listdir fs directory = Inr [] \<Longrightarrow> print_directory_tree room fs directory prefix = Inr []"
  by (subst print_directory_tree.simps) simp

theorem empty_directory_renders_nothing_witness:
  "listdir (Dir [(''empty'', Dir [])]) [''empty''] = Inr []
   \<and> print_directory_tree 1000 (Dir [(''empty'', Dir [])]) [''empty''] '''' = Inr []"
  using empty_directory_renders_nothing [of "Dir [(''empty'', Dir [])]" "[''empty'']" 1000 "''''"]
  by (simp add: listdir_def)

text \<open>
  C8, as stated, fails: a directory that can be neither examined nor listed (its parent
  gives no search permission) is in the listing of its parent, is no directory for
  \<^verbatim>\<open>isdir\<close>, and is left out without any error, while the printer goes on and returns
  the lines of the rest.
\<close>

theorem unexaminable_directory_is_skipped:
  "lookup (Dir [(''a.txt'', File), (''private'', Unsearchable PermissionError)]) [''private'']
     = Some (Unsearchable PermissionError)
   \<and> listdir (Dir [(''a.txt'', File), (''private'', Unsearchable PermissionError)]) []
     = Inr [''a.txt'', ''private'']
   \<and> listdir (Dir [(''a.txt'', File), (''private'', Unsearchable PermissionError)]) [''private'']
     = Inl PermissionError
   \<and> print_directory_tree 1000
       (Dir [(''a.txt'', File), (''private'', Unsearchable PermissionError)]) [] []
     = Inr [''`-- a.txt'']"
proof -
  let ?fs = "Dir [(''a.txt'', File), (''private'', Unsearchable PermissionError)]"
  have u: "unlistable_dirs ?fs [] = []" by code_simp
  have cd: "call_depth ?fs [] \<le> 1000" by code_simp
  have "map (line_of ?fs [] []) (tree_entries ?fs []) = [''`-- a.txt'']" by code_simp
  with pdt_eval_bounded [OF u cd, of "[]"]
  have "print_directory_tree 1000 ?fs [] [] = Inr [''`-- a.txt'']" by simp
  moreover have "lookup ?fs [''private''] = Some (Unsearchable PermissionError)" by code_simp
  moreover have "listdir ?fs [] = Inr [''a.txt'', ''private'']" by code_simp
  moreover have "listdir ?fs [''private''] = Inl PermissionError" by code_simp
  ultimately show ?thesis by blast
qed

text \<open>
  C8, amended. If the directory of the call, or any directory below it that \<^verbatim>\<open>isdir\<close>
  accepts (these are the directories the printer descends into), cannot be listed, the
  call returns no lines: it ends with an error, which is a listing error of such a
  directory or \<^verbatim>\<open>RecursionError\<close>. Where the tree is no deeper than the room of the stack,
  the error is the listing error of the first such directory in the order of the
  traversal, so the error of the directory in question when that one is the first (or the
  only one).
\<close>

theorem unlistable_directory_aborts_render:
  assumes "q = [] \<or> (q \<in> set (tree_entries fs directory) \<and> isdir fs (directory @ q))"
    and "listdir fs (directory @ q) = Inl e"
  shows "(\<exists>e'. print_directory_tree room fs directory prefix = Inl e'
              \<and> (e' = RecursionError
                   \<or> (\<exists>r\<in>set (unlistable_dirs fs directory).
                         listdir fs (directory @ r) = Inl e')))
       \<and> (\<forall>out. print_directory_tree room fs directory prefix \<noteq> Inr out)
       \<and> (call_depth fs directory \<le> room \<longrightarrow>
            (\<exists>e'. print_directory_tree room fs directory prefix = Inl e'
                 \<and> listdir fs (directory @ hd (unlistable_dirs fs directory)) = Inl e')
          \<and> (q = hd (unlistable_dirs fs directory)
               \<longrightarrow> print_directory_tree room fs directory prefix = Inl e))"
proof -
  from assms(2) have "\<not> listable fs (directory @ q)" by (simp add: listable_def)
  with assms(1) have "q \<in> set (unlistable_dirs fs directory)"
    by (auto simp: unlistable_dirs_def)
  then have ne: "unlistable_dirs fs directory \<noteq> []" by auto
  with pdt_result [of fs directory prefix] obtain e0 where
    e0: "print_unbounded fs directory prefix = Inl e0"
        "listdir fs (directory @ hd (unlistable_dirs fs directory)) = Inl e0"
    by blast
  have no: "\<forall>out. print_directory_tree room fs directory prefix \<noteq> Inr out"
    using e0(1) by (auto simp: pdt_bounded_Inr_iff)
  then obtain e' where e': "print_directory_tree room fs directory prefix = Inl e'"
    by (cases "print_directory_tree room fs directory prefix") auto
  from pdt_bounded_error [OF e']
  have kind: "e' = RecursionError
     \<or> (\<exists>r\<in>set (unlistable_dirs fs directory). listdir fs (directory @ r) = Inl e')" .
  have fits: "(\<exists>e'. print_directory_tree room fs directory prefix = Inl e'
                 \<and> listdir fs (directory @ hd (unlistable_dirs fs directory)) = Inl e')
          \<and> (q = hd (unlistable_dirs fs directory)
               \<longrightarrow> print_directory_tree room fs directory prefix = Inl e)"
    if "call_depth fs directory \<le> room"
    using pdt_bounded_eq_unbounded [OF that, of prefix] e0 assms(2) by auto
  from e' kind no fits show ?thesis by blast
qed

theorem unlistable_directory_aborts_render_witness:
  "([''src'', ''secret''] = [] \<or>
     [''src'', ''secret''] \<in> set (tree_entries
        (Dir [(''a.txt'', File),
              (''src'', Dir [(''main.py'', File), (''secret'', Unlistable PermissionError)])]) [])
     \<and> isdir (Dir [(''a.txt'', File),
              (''src'', Dir [(''main.py'', File), (''secret'', Unlistable PermissionError)])])
          ([] @ [''src'', ''secret'']))
   \<and> listdir (Dir [(''a.txt'', File),
              (''src'', Dir [(''main.py'', File), (''secret'', Unlistable PermissionError)])])
          ([] @ [''src'', ''secret'']) = Inl PermissionError
   \<and> print_directory_tree 1000 (Dir [(''a.txt'', File),
              (''src'', Dir [(''main.py'', File), (''secret'', Unlistable PermissionError)])])
          [] [] = Inl PermissionError"
proof -
  let ?fs = "Dir [(''a.txt'', File),
              (''src'', Dir [(''main.py'', File), (''secret'', Unlistable PermissionError)])]"
  have enc: "[''src'', ''secret''] = [] \<or>
     [''src'', ''secret''] \<in> set (tree_entries ?fs [])
     \<and> isdir ?fs ([] @ [''src'', ''secret''])"
    by code_simp
  have err: "listdir ?fs ([] @ [''src'', ''secret'']) = Inl PermissionError" by code_simp
  have first: "[''src'', ''secret''] = hd (unlistable_dirs ?fs [])" by code_simp
  have cd: "call_depth ?fs [] \<le> 1000" by code_simp
  from unlistable_directory_aborts_render [OF enc err, of 1000 "[]"] first cd
  have "print_directory_tree 1000 ?fs [] [] = Inl PermissionError" by blast
  with enc err show ?thesis by blast
qed

text \<open>
  C9, as stated, fails in three ways. For the empty sequence the written text is empty,
  and splitting the empty text at newlines gives one line, the empty one. A line that
  holds a newline character (a file name may) is split in two. And a line that UTF-8
  cannot encode (the line of a file whose name is not UTF-8) is not written at all: the
  function raises \<^verbatim>\<open>UnicodeEncodeError\<close> and leaves an empty file.
\<close>

theorem round_trip_breaks_on_empty_newline_and_encoding:
  "save_to_text_file [] ''tree.txt'' empty_disk = (None, empty_disk (''tree.txt'' := Text []))
   \<and> split_on newline [] = [[]]
   \<and> split_on newline [] \<noteq> []
   \<and> save_to_text_file [[CHR ''a'', newline, CHR ''b'']] ''tree.txt'' empty_disk
       = (None, empty_disk (''tree.txt'' := Text [CHR ''a'', newline, CHR ''b'']))
   \<and> split_on newline [CHR ''a'', newline, CHR ''b''] = [''a'', ''b'']
   \<and> split_on newline [CHR ''a'', newline, CHR ''b''] \<noteq> [[CHR ''a'', newline, CHR ''b'']]
   \<and> save_to_text_file [[CHR ''`'', CHR ''-'', CHR ''-'', CHR '' '', CHR 0xFF]]
         ''tree.txt'' empty_disk
       = (Some UnicodeEncodeError, empty_disk (''tree.txt'' := Text []))"
proof -
  have v1: "valid_utf8 (py_join [newline] [])" by code_simp
  have v2: "valid_utf8 (py_join [newline] [[CHR ''a'', newline, CHR ''b'']])" by code_simp
  have v3: "\<not> valid_utf8 (py_join [newline] [[CHR ''`'', CHR ''-'', CHR ''-'', CHR '' '', CHR 0xFF]])"
    by code_simp
  have e: "empty_disk ''tree.txt'' = Absent" by (simp add: empty_disk_def)
  show ?thesis
    using v1 v2 v3 by (simp add: save_to_text_file_def e newline_def)
qed

text \<open>
  C9, amended. For every non-empty sequence of lines none of which holds a newline
  character and each of which UTF-8 can encode, when the file can be opened for writing,
  the sink stores the lines joined by newlines, and splitting the stored text at newlines
  gives back exactly the sequence.
\<close>

theorem text_round_trip:
  assumes "lines \<noteq> []" and "\<forall>l\<in>set lines. newline \<notin> set l"
    and "\<forall>l\<in>set lines. valid_utf8 l" and "disk filepath \<noteq> Refused"
  shows "save_to_text_file lines filepath disk
           = (None, disk (filepath := Text (py_join [newline] lines)))
       \<and> split_on newline (py_join [newline] lines) = lines"
  using assms
  by (auto simp: save_to_text_file_def split_on_py_join valid_utf8_py_join split: slot.splits)

theorem text_round_trip_witness:
  "[''|-- a.txt'', ''`-- b.txt''] \<noteq> []
   \<and> newline \<notin> set ''|-- a.txt'' \<and> newline \<notin> set ''`-- b.txt''
   \<and> valid_utf8 ''|-- a.txt'' \<and> valid_utf8 ''`-- b.txt''
   \<and> empty_disk ''tree.txt'' \<noteq> Refused
   \<and> save_to_text_file [''|-- a.txt'', ''`-- b.txt''] ''tree.txt'' empty_disk
        = (None, empty_disk (''tree.txt'' :=
                  Text (py_join [newline] [''|-- a.txt'', ''`-- b.txt''])))
   \<and> split_on newline (py_join [newline] [''|-- a.txt'', ''`-- b.txt''])
        = [''|-- a.txt'', ''`-- b.txt'']"
proof -
  have 1: "[''|-- a.txt'', ''`-- b.txt''] \<noteq> []" by simp
  have 2: "\<forall>l\<in>set [''|-- a.txt'', ''`-- b.txt'']. newline \<notin> set l"
    by (simp add: newline_def)
  have v: "valid_utf8 ''|-- a.txt''" "valid_utf8 ''`-- b.txt''" by code_simp+
  then have 3: "\<forall>l\<in>set [''|-- a.txt'', ''`-- b.txt'']. valid_utf8 l" by simp
  have 4: "empty_disk ''tree.txt'' \<noteq> Refused" by (simp add: empty_disk_def)
  from text_round_trip [of "[''|-- a.txt'', ''`-- b.txt'']" empty_disk "''tree.txt''", OF 1 2 3 4]
    2 v 4
  show ?thesis by simp
qed




end
